theory Spec2Isabelle
  imports Main "HOL-Library.Word"
begin

unbundle bit_operations_syntax

section \<open>Constants and data model of the draughts engine (engine.cpp)\<close>

text \<open>
  A shallow embedding of the search engine for 8x8 draughts with flying kings and forced
  maximum capture: move generation, move application, evaluation, the transposition
  table, move ordering, the alpha-beta search and the deepening driver. Each function of
  the source is a function here under its own name; reference parameters and globals are
  passed in and returned; an access outside an array is the result \<open>None\<close> where the
  source can reach one.
\<close>

definition TT_SIZE :: nat where "TT_SIZE = 2 ^ 24"
definition INF_SCORE :: int where "INF_SCORE = 1000000"  \<comment> \<open>\<^verbatim>\<open>INF\<close> in the source\<close>
definition MATE :: int where "MATE = 900000"
definition MAX_PLY :: int where "MAX_PLY = 64"

definition EMPTY :: int where "EMPTY = 0"
definition BLACK_MAN :: int where "BLACK_MAN = 1"
definition WHITE_MAN :: int where "WHITE_MAN = 2"
definition BLACK_KING :: int where "BLACK_KING = 3"
definition WHITE_KING :: int where "WHITE_KING = 4"
definition GHOST :: int where "GHOST = 7"

lemmas piece_defs = EMPTY_def BLACK_MAN_def WHITE_MAN_def BLACK_KING_def WHITE_KING_def GHOST_def

text \<open>
  \<^verbatim>\<open>struct Step { int r1, c1, r2, c2; };\<close>
  \<^verbatim>\<open>struct Move { Step steps[12]; int count; int score; ... };\<close>
  \<^verbatim>\<open>struct MoveResult { Step steps[12]; int count; int score; int depth; int nodes; };\<close>

  The array \<open>steps\<close> of a move is kept as the list of its initialised slots: a local
  \<^verbatim>\<open>Move m; m.count = 0;\<close> has no initialised slot, and
  \<^verbatim>\<open>next.steps[next.count++] = s\<close> initialises slot \<open>count\<close>, which appends to the list.
  \<open>MoveResult\<close> has the fields of \<open>Move\<close> followed by \<open>depth\<close> and \<open>nodes\<close>.
\<close>

record Step =
  r1 :: int
  c1 :: int
  r2 :: int
  c2 :: int

record Move =
  steps :: "Step list"
  count :: nat
  score :: int

record MoveResult = Move +
  depth :: int
  nodes :: int

text \<open>
  \<^verbatim>\<open>bool operator==(const Move& other) const\<close>: the step count, the source of the first
  step and the destination of step \<open>count - 1\<close>.
\<close>

definition move_eq :: "Move \<Rightarrow> Move \<Rightarrow> bool" where
  "move_eq m other =
     (if count m \<noteq> count other then False
      else if count m = 0 then True
      else r1 (steps m ! 0) = r1 (steps other ! 0) \<and> c1 (steps m ! 0) = c1 (steps other ! 0) \<and>
           r2 (steps m ! (count m - 1)) = r2 (steps other ! (count m - 1)) \<and>
           c2 (steps m ! (count m - 1)) = c2 (steps other ! (count m - 1)))"

text \<open>
  \<^verbatim>\<open>struct MoveList { Move moves[128]; int count = 0; ... }\<close>: the list holds the
  \<open>count\<close> live entries of the array, so \<open>count\<close> is its length.
  \<^verbatim>\<open>void push_back(const Move& m) { if (count < 128) moves[count++] = m; }\<close>
\<close>

type_synonym MoveList = "Move list"

definition push_back :: "MoveList \<Rightarrow> Move \<Rightarrow> MoveList" where
  "push_back moves m = (if length moves < 128 then moves @ [m] else moves)"

text \<open>A board is \<^verbatim>\<open>int board[64]\<close>; square \<open>(r, c)\<close> is index \<open>r*8+c\<close>.\<close>

type_synonym board = "int list"

definition sq :: "int \<Rightarrow> int \<Rightarrow> nat" where
  "sq r c = nat (r * 8 + c)"

definition is_valid :: "int \<Rightarrow> int \<Rightarrow> bool" where
  "is_valid r c \<longleftrightarrow> r \<ge> 0 \<and> r < 8 \<and> c \<ge> 0 \<and> c < 8"

definition is_white_of :: "int \<Rightarrow> bool" where
  "is_white_of p \<longleftrightarrow> p = WHITE_MAN \<or> p = WHITE_KING"

definition my_man_of :: "int \<Rightarrow> int" where
  "my_man_of p = (if is_white_of p then WHITE_MAN else BLACK_MAN)"
definition my_king_of :: "int \<Rightarrow> int" where
  "my_king_of p = (if is_white_of p then WHITE_KING else BLACK_KING)"
definition enemy_man_of :: "int \<Rightarrow> int" where
  "enemy_man_of p = (if is_white_of p then BLACK_MAN else WHITE_MAN)"
definition enemy_king_of :: "int \<Rightarrow> int" where
  "enemy_king_of p = (if is_white_of p then BLACK_KING else WHITE_KING)"

text \<open>\<^verbatim>\<open>int drs[] = {-1, -1, 1, 1}; int dcs[] = {-1, 1, -1, 1};\<close>\<close>

definition drs :: "int list" where "drs = [-1, -1, 1, 1]"
definition dcs :: "int list" where "dcs = [-1, 1, -1, 1]"

section \<open>Capture enumeration: find_captures_recursive\<close>

text \<open>
  The two \<^verbatim>\<open>while(true)\<close> loops of the king branch, for the direction with index \<open>i\<close>.
  The inner loop walks the landing squares behind the jumped piece at \<open>(nr, nc)\<close>; the
  outer loop walks from \<open>(r, c)\<close> to the first piece. Both read \<open>board\<close> only (the
  recursive call works on the copy \<open>temp_board\<close>), so each direction yields the list of
  its jumps \<open>(nr, nc, jr, jc)\<close> in the order the loops visit them. An index outside the
  direction arrays yields nothing.
\<close>

function king_landings :: "board \<Rightarrow> int \<Rightarrow> int \<Rightarrow> nat \<Rightarrow> int \<Rightarrow> (int \<times> int) list" where
  "king_landings board nr nc i land_dist =
     (if 4 \<le> i then []
      else let jr = nr + land_dist * (drs ! i); jc = nc + land_dist * (dcs ! i) in
        if \<not> is_valid jr jc then []
        else if board ! sq jr jc \<noteq> EMPTY then []
        else (jr, jc) # king_landings board nr nc i (land_dist + 1))"
  by pat_completeness auto
termination
proof (relation "measure (\<lambda>(board, nr, nc, i, land_dist).
          nat (if drs ! i = 1 then 8 - (nr + land_dist) else nr - land_dist + 1))")
  show "wf (measure (\<lambda>(board, nr, nc, i, land_dist).
          nat (if drs ! i = 1 then 8 - (nr + land_dist) else nr - land_dist + 1)))"
    by simp
next
  fix board :: board and nr nc :: int and i :: nat and land_dist x xa :: int
  assume i: "\<not> 4 \<le> i"
    and x: "x = nr + land_dist * drs ! i"
    and v: "\<not> \<not> is_valid x xa"
  from i have "i = 0 \<or> i = 1 \<or> i = 2 \<or> i = 3" by arith
  then have "drs ! i = 1 \<or> drs ! i = -1" by (auto simp: drs_def)
  with x v show "((board, nr, nc, i, land_dist + 1), (board, nr, nc, i, land_dist))
     \<in> measure (\<lambda>(board, nr, nc, i, land_dist).
          nat (if drs ! i = 1 then 8 - (nr + land_dist) else nr - land_dist + 1))"
    by (auto simp: is_valid_def)
qed

function king_jumps :: "board \<Rightarrow> int \<Rightarrow> int \<Rightarrow> int \<Rightarrow> nat \<Rightarrow> int \<Rightarrow> (int \<times> int \<times> int \<times> int) list" where
  "king_jumps board r c piece i dist =
     (if 4 \<le> i then []
      else let nr = r + dist * (drs ! i); nc = c + dist * (dcs ! i) in
        if \<not> is_valid nr nc then []
        else let p = board ! sq nr nc in
          if p = my_man_of piece \<or> p = my_king_of piece \<or> p = GHOST then []
          else if p = enemy_man_of piece \<or> p = enemy_king_of piece
            then map (\<lambda>(jr, jc). (nr, nc, jr, jc)) (king_landings board nr nc i 1)
          else king_jumps board r c piece i (dist + 1))"
  by pat_completeness auto
termination
proof (relation "measure (\<lambda>(board, r, c, piece, i, dist).
          nat (if drs ! i = 1 then 8 - (r + dist) else r - dist + 1))")
  show "wf (measure (\<lambda>(board, r, c, piece, i, dist).
          nat (if drs ! i = 1 then 8 - (r + dist) else r - dist + 1)))"
    by simp
next
  fix board :: board and r c piece :: int and i :: nat and dist x xa xb :: int
  assume i: "\<not> 4 \<le> i"
    and x: "x = r + dist * drs ! i"
    and v: "\<not> \<not> is_valid x xa"
  from i have "i = 0 \<or> i = 1 \<or> i = 2 \<or> i = 3" by arith
  then have "drs ! i = 1 \<or> drs ! i = -1" by (auto simp: drs_def)
  with x v show "((board, r, c, piece, i, dist + 1), (board, r, c, piece, i, dist))
     \<in> measure (\<lambda>(board, r, c, piece, i, dist).
          nat (if drs ! i = 1 then 8 - (r + dist) else r - dist + 1))"
    by (auto simp: is_valid_def)
qed

text \<open>
  The man branch of the direction loop: one jump over an adjacent enemy. The enumeration
  starts on a square of the board and moves to landing squares that passed \<open>is_valid\<close>,
  so \<open>(r, c)\<close> is on the board and every index read lies inside the array.
\<close>

definition man_jumps :: "board \<Rightarrow> int \<Rightarrow> int \<Rightarrow> int \<Rightarrow> nat \<Rightarrow> (int \<times> int \<times> int \<times> int) list" where
  "man_jumps board r c piece i =
     (let dr = drs ! i; dc = dcs ! i;
          nr = r + dr; nc = c + dc;
          jr = r + 2 * dr; jc = c + 2 * dc in
      if is_valid jr jc then
        (let mid = board ! sq nr nc in
         if (mid = enemy_man_of piece \<or> mid = enemy_king_of piece) \<and> board ! sq jr jc = EMPTY
         then [(nr, nc, jr, jc)] else [])
      else [])"

definition is_king_piece :: "int \<Rightarrow> bool" where
  "is_king_piece piece \<longleftrightarrow> piece = WHITE_KING \<or> piece = BLACK_KING"

definition jumps_in_dir :: "board \<Rightarrow> int \<Rightarrow> int \<Rightarrow> int \<Rightarrow> nat \<Rightarrow> (int \<times> int \<times> int \<times> int) list" where
  "jumps_in_dir board r c piece i =
     (if \<not> is_king_piece piece then man_jumps board r c piece i
      else king_jumps board r c piece i 1)"

definition all_jumps :: "board \<Rightarrow> int \<Rightarrow> int \<Rightarrow> int \<Rightarrow> (int \<times> int \<times> int \<times> int) list" where
  "all_jumps board r c piece = concat (map (jumps_in_dir board r c piece) [0..<4])"

definition jump_board :: "board \<Rightarrow> int \<Rightarrow> int \<Rightarrow> int \<Rightarrow> int \<times> int \<times> int \<times> int \<Rightarrow> board" where
  "jump_board board r c piece j =
     (case j of (nr, nc, jr, jc) \<Rightarrow>
        board[sq r c := EMPTY, sq nr nc := GHOST, sq jr jc := piece])"

definition add_step :: "Move \<Rightarrow> Step \<Rightarrow> Move" where
  "add_step m s = m\<lparr>steps := steps m @ [s], count := count m + 1\<rparr>"

text \<open>
  \<open>find_captures_recursive\<close>: the chain is emitted as it is once it has 12 steps;
  otherwise every jump of every direction is followed on a copy of the board, and the
  chain is emitted when no jump exists and it has at least one step
  (\<open>found_continuation\<close> is \<open>all_jumps \<noteq> []\<close>).
\<close>

function find_captures_recursive ::
  "board \<Rightarrow> int \<Rightarrow> int \<Rightarrow> int \<Rightarrow> Move \<Rightarrow> MoveList \<Rightarrow> MoveList" where
  "find_captures_recursive board r c piece current_move moves =
     (if count current_move \<ge> 12 then push_back moves current_move
      else
        let js = all_jumps board r c piece;
            moves' = fold (\<lambda>j ms.
                       find_captures_recursive (jump_board board r c piece j)
                         (fst (snd (snd j))) (snd (snd (snd j))) piece
                         (add_step current_move
                            \<lparr>r1 = r, c1 = c, r2 = fst (snd (snd j)), c2 = snd (snd (snd j))\<rparr>) ms)
                       js moves
        in if js = [] \<and> count current_move > 0 then push_back moves' current_move else moves')"
  by pat_completeness auto
termination
  by (relation "measure (\<lambda>(board, r, c, piece, current_move, moves). 12 - count current_move)")
     (auto simp: add_step_def)

section \<open>Move generation: generate_moves\<close>

text \<open>The first loop: the capture chains of every piece of the side, squares in index order.\<close>

definition empty_move :: Move where
  "empty_move = \<lparr>steps = [], count = 0, score = 0\<rparr>"

definition capture_scan :: "board \<Rightarrow> int \<Rightarrow> MoveList" where
  "capture_scan board player =
     fold (\<lambda>i moves.
             if board ! i = my_man_of player \<or> board ! i = my_king_of player
             then find_captures_recursive board (int i div 8) (int i mod 8) (board ! i) empty_move moves
             else moves)
          [0..<64] []"

text \<open>
  \<^verbatim>\<open>for(i...) if (moves[i].count > max_capture_count) max_capture_count = moves[i].count;\<close>
\<close>

definition max_capture_count :: "MoveList \<Rightarrow> nat" where
  "max_capture_count moves = fold (\<lambda>m mx. if count m > mx then count m else mx) moves 0"

text \<open>
  \<^verbatim>\<open>for(i...) if (moves[i].count == max_capture_count) moves[write_idx++] = moves[i];\<close>
  followed by \<^verbatim>\<open>moves.count = write_idx\<close>: the in-place compaction of the array.
\<close>

function compact_loop :: "nat \<Rightarrow> MoveList \<Rightarrow> nat \<Rightarrow> nat \<Rightarrow> MoveList \<times> nat" where
  "compact_loop mx moves i write_idx =
     (if i < length moves then
        (if count (moves ! i) = mx
         then compact_loop mx (moves[write_idx := moves ! i]) (i + 1) (write_idx + 1)
         else compact_loop mx moves (i + 1) write_idx)
      else (moves, write_idx))"
  by pat_completeness auto
termination
  by (relation "measure (\<lambda>(mx, moves, i, write_idx). length moves - i)") auto

definition keep_max_captures :: "MoveList \<Rightarrow> MoveList" where
  "keep_max_captures moves =
     (case compact_loop (max_capture_count moves) moves 0 0 of
        (moves', write_idx) \<Rightarrow> take write_idx moves')"

text \<open>The quiet moves: a single step \<open>(r, c) \<rightarrow> (nr, nc)\<close> with score 0.\<close>

definition quiet_move :: "int \<Rightarrow> int \<Rightarrow> int \<Rightarrow> int \<Rightarrow> Move" where
  "quiet_move r c nr nc = \<lparr>steps = [\<lparr>r1 = r, c1 = c, r2 = nr, c2 = nc\<rparr>], count = 1, score = 0\<rparr>"

definition man_quiet :: "board \<Rightarrow> bool \<Rightarrow> int \<Rightarrow> int \<Rightarrow> MoveList \<Rightarrow> MoveList" where
  "man_quiet board is_white r c moves =
     fold (\<lambda>k ms.
             let nr = r + [if is_white then -1 else 1, if is_white then -1 else 1] ! k;
                 nc = c + [-1, 1] ! k in
             if is_valid nr nc \<and> board ! sq nr nc = EMPTY
             then push_back ms (quiet_move r c nr nc) else ms)
          [0..<2] moves"

function king_slide :: "board \<Rightarrow> int \<Rightarrow> int \<Rightarrow> nat \<Rightarrow> int \<Rightarrow> MoveList \<Rightarrow> MoveList" where
  "king_slide board r c k dist moves =
     (if 4 \<le> k then moves
      else let nr = r + dist * (drs ! k); nc = c + dist * (dcs ! k) in
        if \<not> is_valid nr nc \<or> board ! sq nr nc \<noteq> EMPTY then moves
        else king_slide board r c k (dist + 1) (push_back moves (quiet_move r c nr nc)))"
  by pat_completeness auto
termination
proof (relation "measure (\<lambda>(board, r, c, k, dist, moves).
          nat (if drs ! k = 1 then 8 - (r + dist) else r - dist + 1))")
  show "wf (measure (\<lambda>(board, r, c, k, dist, moves).
          nat (if drs ! k = 1 then 8 - (r + dist) else r - dist + 1)))"
    by simp
next
  fix board :: board and r c :: int and k :: nat and dist x xa :: int and moves :: MoveList
  assume k: "\<not> 4 \<le> k"
    and x: "x = r + dist * drs ! k"
    and v: "\<not> (\<not> is_valid x xa \<or> board ! sq x xa \<noteq> EMPTY)"
  from k have "k = 0 \<or> k = 1 \<or> k = 2 \<or> k = 3" by arith
  then have "drs ! k = 1 \<or> drs ! k = -1" by (auto simp: drs_def)
  with x v show "((board, r, c, k, dist + 1, push_back moves (quiet_move r c x xa)),
                  (board, r, c, k, dist, moves))
     \<in> measure (\<lambda>(board, r, c, k, dist, moves).
          nat (if drs ! k = 1 then 8 - (r + dist) else r - dist + 1))"
    by (auto simp: is_valid_def)
qed

definition king_quiet :: "board \<Rightarrow> int \<Rightarrow> int \<Rightarrow> MoveList \<Rightarrow> MoveList" where
  "king_quiet board r c moves = fold (\<lambda>k ms. king_slide board r c k 1 ms) [0..<4] moves"

definition quiet_square :: "board \<Rightarrow> int \<Rightarrow> int \<Rightarrow> int \<Rightarrow> MoveList \<Rightarrow> MoveList" where
  "quiet_square board player r c moves =
     (let p = board ! sq r c in
      if p \<noteq> my_man_of player \<and> p \<noteq> my_king_of player then moves
      else if p = my_man_of player then man_quiet board (is_white_of player) r c moves
      else king_quiet board r c moves)"

definition quiet_scan :: "board \<Rightarrow> int \<Rightarrow> MoveList" where
  "quiet_scan board player =
     fold (\<lambda>r ms. fold (\<lambda>c ms'. quiet_square board player (int r) (int c) ms') [0..<8] ms)
          [0..<8] []"

definition generate_moves :: "board \<Rightarrow> int \<Rightarrow> MoveList" where
  "generate_moves board player =
     (let moves = capture_scan board player in
      if length moves > 0 then keep_max_captures moves
      else quiet_scan board player)"

section \<open>Move application: apply_move\<close>

text \<open>
  The walk of one step, \<^verbatim>\<open>while(curr_r != er) { if (board[..] != EMPTY) {...} curr_r += dr; ... }\<close>.
  The loop ends only when the row \<open>er\<close> is reached, so a walk that leaves the 64 cells of
  the array reads out of bounds: that is \<open>None\<close>. \<open>dr\<close> and \<open>dc\<close> are fixed by the
  endpoints of the step.
\<close>

function capture_walk ::
  "board \<Rightarrow> int \<Rightarrow> int \<Rightarrow> int \<Rightarrow> int \<Rightarrow> int \<Rightarrow> int \<Rightarrow> int \<Rightarrow> (board \<times> int) option" where
  "capture_walk board captured_piece_type sr sc er ec curr_r curr_c =
     (let dr = (if er > sr then 1 else -1); dc = (if ec > sc then 1 else -1) in
      if curr_r = er then Some (board, captured_piece_type)
      else if curr_r * 8 + curr_c < 0 \<or> curr_r * 8 + curr_c \<ge> 64 then None
      else if board ! sq curr_r curr_c \<noteq> EMPTY
        then capture_walk (board[sq curr_r curr_c := EMPTY]) (board ! sq curr_r curr_c)
               sr sc er ec (curr_r + dr) (curr_c + dc)
      else capture_walk board captured_piece_type sr sc er ec (curr_r + dr) (curr_c + dc))"
  by pat_completeness auto
termination
  by (relation "measure (\<lambda>(board, cap, sr, sc, er, ec, curr_r, curr_c).
          nat (if er > sr then 64 - (curr_r * 8 + curr_c) else curr_r * 8 + curr_c + 1))")
     (auto split: if_splits)

definition step_walk :: "board \<Rightarrow> int \<Rightarrow> Step \<Rightarrow> (board \<times> int) option" where
  "step_walk board captured_piece_type s =
     (let sr = r1 s; sc = c1 s; er = r2 s; ec = c2 s;
          dr = (if er > sr then 1 else -1); dc = (if ec > sc then 1 else -1)
      in capture_walk board captured_piece_type sr sc er ec (sr + dr) (sc + dc))"

fun steps_loop :: "Step list \<Rightarrow> board \<Rightarrow> int \<Rightarrow> (board \<times> int) option" where
  "steps_loop [] board captured_piece_type = Some (board, captured_piece_type)"
| "steps_loop (s # ss) board captured_piece_type =
     (case step_walk board captured_piece_type s of
        None \<Rightarrow> None
      | Some (board', captured') \<Rightarrow> steps_loop ss board' captured')"

text \<open>
  \<open>apply_move\<close> returns the board and \<open>captured_piece_type\<close> (a reference parameter).
  A move without steps, a step slot that was never written, or a source or destination
  outside the array is an out-of-bounds access: \<open>None\<close>. The parameter \<open>player\<close> is not
  used by the source.
\<close>

definition apply_move :: "board \<Rightarrow> Move \<Rightarrow> int \<Rightarrow> int \<Rightarrow> (board \<times> int) option" where
  "apply_move board m player captured_piece_type =
     (if count m = 0 \<or> length (steps m) < count m then None
      else
        let r1' = r1 (steps m ! 0); c1' = c1 (steps m ! 0);
            r2' = r2 (steps m ! (count m - 1)); c2' = c2 (steps m ! (count m - 1)) in
        if r1' * 8 + c1' < 0 \<or> r1' * 8 + c1' \<ge> 64 \<or> r2' * 8 + c2' < 0 \<or> r2' * 8 + c2' \<ge> 64
        then None
        else
          let piece = board ! sq r1' c1';
              board1 = board[sq r1' c1' := EMPTY, sq r2' c2' := piece] in
          (case (if \<bar>r1' - r2'\<bar> \<ge> 2 \<or> count m > 1
                 then steps_loop (take (count m) (steps m)) board1 captured_piece_type
                 else Some (board1, captured_piece_type)) of
             None \<Rightarrow> None
           | Some (board2, captured') \<Rightarrow>
               let is_white = (piece = WHITE_MAN); is_black = (piece = BLACK_MAN);
                   board3 = (if is_white \<and> r2' = 0 then board2[sq r2' c2' := WHITE_KING] else board2);
                   board4 = (if is_black \<and> r2' = 7 then board3[sq r2' c2' := BLACK_KING] else board3)
               in Some (board4, captured')))"

definition is_capture_move :: "Move \<Rightarrow> bool" where
  "is_capture_move m =
     (if count m = 0 then False else \<bar>r1 (steps m ! 0) - r2 (steps m ! 0)\<bar> > 1)"

definition is_promotion_move :: "Move \<Rightarrow> int \<Rightarrow> bool" where
  "is_promotion_move m piece =
     (if count m \<noteq> 1 then False
      else if piece = WHITE_MAN \<and> r2 (steps m ! 0) = 0 then True
      else if piece = BLACK_MAN \<and> r2 (steps m ! 0) = 7 then True
      else False)"

section \<open>Static evaluation: evaluate\<close>

definition PST_WHITE :: "int list" where
  "PST_WHITE =
    [0, 0, 0, 0, 0, 0, 0, 0,
     1500, 1500, 1500, 1500, 1500, 1500, 1500, 1500,
     800, 800, 800, 800, 800, 800, 800, 800,
     200, 200, 250, 250, 250, 250, 200, 200,
     100, 100, 150, 150, 150, 150, 100, 100,
     50, 50, 80, 80, 80, 80, 50, 50,
     20, 20, 20, 20, 20, 20, 20, 20,
     10, 10, 10, 10, 10, 10, 10, 10]"

definition PST_BLACK :: "int list" where
  "PST_BLACK =
    [10, 10, 10, 10, 10, 10, 10, 10,
     20, 20, 20, 20, 20, 20, 20, 20,
     50, 50, 80, 80, 80, 80, 50, 50,
     100, 100, 150, 150, 150, 150, 100, 100,
     200, 200, 250, 250, 250, 250, 200, 200,
     800, 800, 800, 800, 800, 800, 800, 800,
     1500, 1500, 1500, 1500, 1500, 1500, 1500, 1500,
     0, 0, 0, 0, 0, 0, 0, 0]"

text \<open>The accumulators of the first loop of \<open>evaluate\<close>.\<close>

record eval_acc =
  w_score :: int
  b_score :: int
  w_men :: int
  b_men :: int
  w_kings :: int
  b_kings :: int
  w_moves :: int
  b_moves :: int

definition eval_square :: "board \<Rightarrow> nat \<Rightarrow> eval_acc \<Rightarrow> eval_acc" where
  "eval_square board i a =
     (let p = board ! i; r = int i div 8; c = int i mod 8 in
      if p = EMPTY \<or> p = GHOST then a
      else if p = WHITE_MAN then
        (let a1 = a\<lparr>w_men := w_men a + 1, w_score := w_score a + 1000 + PST_WHITE ! i\<rparr>;
             a2 = (if r \<le> 2 then a1\<lparr>w_score := w_score a1 + 600\<rparr> else a1);
             a3 = (if r > 0 \<and> c > 0 \<and> board ! (i - 9) = EMPTY
                   then a2\<lparr>w_moves := w_moves a2 + 1\<rparr> else a2);
             a4 = (if r > 0 \<and> c < 7 \<and> board ! (i - 7) = EMPTY
                   then a3\<lparr>w_moves := w_moves a3 + 1\<rparr> else a3)
         in a4)
      else if p = BLACK_MAN then
        (let a1 = a\<lparr>b_men := b_men a + 1, b_score := b_score a + 1000 + PST_BLACK ! i\<rparr>;
             a2 = (if r \<ge> 5 then a1\<lparr>b_score := b_score a1 + 600\<rparr> else a1);
             a3 = (if r < 7 \<and> c > 0 \<and> board ! (i + 7) = EMPTY
                   then a2\<lparr>b_moves := b_moves a2 + 1\<rparr> else a2);
             a4 = (if r < 7 \<and> c < 7 \<and> board ! (i + 9) = EMPTY
                   then a3\<lparr>b_moves := b_moves a3 + 1\<rparr> else a3)
         in a4)
      else if p = WHITE_KING then
        a\<lparr>w_kings := w_kings a + 1, w_score := w_score a + 8000, w_moves := w_moves a + 5\<rparr>
      else if p = BLACK_KING then
        a\<lparr>b_kings := b_kings a + 1, b_score := b_score a + 8000, b_moves := b_moves a + 5\<rparr>
      else a)"

definition danger_black :: "board \<Rightarrow> nat \<Rightarrow> eval_acc \<Rightarrow> eval_acc" where
  "danger_black board i a =
     (if board ! i = BLACK_MAN then
        (let safe1 = (is_valid 7 (int i mod 8 - 1) \<and> board ! (i + 7) \<noteq> EMPTY);
             safe = (if is_valid 7 (int i mod 8 + 1) \<and> board ! (i + 9) \<noteq> EMPTY then True else safe1)
         in if \<not> safe then a\<lparr>w_score := w_score a - 1000\<rparr> else a)
      else a)"

definition danger_white :: "board \<Rightarrow> nat \<Rightarrow> eval_acc \<Rightarrow> eval_acc" where
  "danger_white board i a =
     (if board ! i = WHITE_MAN then
        (let safe1 = (is_valid 0 (int i mod 8 - 1) \<and> board ! (i - 9) \<noteq> EMPTY);
             safe = (if is_valid 0 (int i mod 8 + 1) \<and> board ! (i - 7) \<noteq> EMPTY then True else safe1)
         in if \<not> safe then a\<lparr>b_score := b_score a - 1000\<rparr> else a)
      else a)"

definition evaluate :: "board \<Rightarrow> int \<Rightarrow> int" where
  "evaluate board current_player =
     (let a0 = \<lparr>w_score = 0, b_score = 0, w_men = 0, b_men = 0,
                w_kings = 0, b_kings = 0, w_moves = 0, b_moves = 0\<rparr>;
          a1 = fold (eval_square board) [0..<64] a0;
          a2 = fold (danger_black board) [48..<56] a1;
          a3 = fold (danger_white board) [8..<16] a2;
          a4 = a3\<lparr>w_score := w_score a3 + w_moves a3 * 6, b_score := b_score a3 + b_moves a3 * 6\<rparr>;
          w_total = w_men a4 + w_kings a4;
          b_total = b_men a4 + b_kings a4;
          a5 = (if w_total > b_total then a4\<lparr>w_score := w_score a4 + 2500 div (b_total + 1)\<rparr> else a4);
          a6 = (if b_total > w_total then a5\<lparr>b_score := b_score a5 + 2500 div (w_total + 1)\<rparr> else a5);
          score = w_score a6 - b_score a6
      in if current_player = WHITE_MAN \<or> current_player = WHITE_KING then score else - score)"

section \<open>Global state, Zobrist hashing and the transposition table\<close>

text \<open>
  \<^verbatim>\<open>struct TTEntry { unsigned long long key; int score; int depth; int flag; Move best_move; };\<close>
  The fields carry the prefix \<open>e_\<close>, since \<open>score\<close> and \<open>depth\<close> are fields of
  \<open>Move\<close> and \<open>MoveResult\<close> already.
\<close>

record TTEntry =
  e_key :: "64 word"
  e_score :: int
  e_depth :: int
  e_flag :: int
  e_best_move :: Move

definition TT_EXACT :: int where "TT_EXACT = 0"
definition TT_ALPHA :: int where "TT_ALPHA = 1"
definition TT_BETA :: int where "TT_BETA = 2"

text \<open>The value of a \<open>Move\<close> or a \<open>TTEntry\<close> after \<^verbatim>\<open>memset(.., 0, ..)\<close>.\<close>

definition zero_step :: Step where
  "zero_step = \<lparr>r1 = 0, c1 = 0, r2 = 0, c2 = 0\<rparr>"

definition zero_move :: Move where
  "zero_move = \<lparr>steps = replicate 12 zero_step, count = 0, score = 0\<rparr>"

definition zero_entry :: TTEntry where
  "zero_entry = \<lparr>e_key = 0, e_score = 0, e_depth = 0, e_flag = 0, e_best_move = zero_move\<rparr>"

text \<open>
  The globals of the engine. \<open>tt_allocated\<close> stands for
  \<^verbatim>\<open>transposition_table != nullptr\<close>; the table is a function of the index. The
  clock (\<open>start_time\<close>, \<open>time_limit_sec\<close>) is not part of the state: the search
  functions take a predicate \<open>time_up\<close> that answers the comparison
  \<^verbatim>\<open>duration(now - start_time) > time_limit_sec\<close> made when \<open>nodes_visited\<close> has the
  given value.
\<close>

record engine_state =
  tt_allocated :: bool
  transposition_table :: "nat \<Rightarrow> TTEntry"
  zobrist_table :: "nat \<Rightarrow> nat \<Rightarrow> 64 word"
  zobrist_black_move :: "64 word"
  history_table :: "nat \<Rightarrow> nat \<Rightarrow> nat \<Rightarrow> int"
  killer_moves :: "nat \<Rightarrow> nat \<Rightarrow> Move"
  stop_search :: bool
  nodes_visited :: int

text \<open>
  \<open>init_zobrist\<close> fills the tables from \<^verbatim>\<open>std::mt19937_64 rng(12345)\<close>; the values
  drawn are the parameters \<open>zt\<close> and \<open>zb\<close>.
\<close>

definition init_zobrist :: "(nat \<Rightarrow> nat \<Rightarrow> 64 word) \<Rightarrow> 64 word \<Rightarrow> engine_state \<Rightarrow> engine_state" where
  "init_zobrist zt zb st =
     st\<lparr>zobrist_table := zt, zobrist_black_move := zb, history_table := (\<lambda>s f t. 0)\<rparr>"

definition init_memory :: "(nat \<Rightarrow> nat \<Rightarrow> 64 word) \<Rightarrow> 64 word \<Rightarrow> engine_state \<Rightarrow> engine_state" where
  "init_memory zt zb st =
     (if \<not> tt_allocated st
      then init_zobrist zt zb (st\<lparr>tt_allocated := True, transposition_table := (\<lambda>idx. zero_entry)\<rparr>)
      else st)"

text \<open>
  \<open>compute_hash\<close> indexes \<open>zobrist_table[i][board[i]]\<close>; the second dimension has 8
  entries, which covers every piece code.
\<close>

definition compute_hash :: "engine_state \<Rightarrow> board \<Rightarrow> int \<Rightarrow> 64 word" where
  "compute_hash st board player =
     (let h = fold (\<lambda>i h. if board ! i \<noteq> EMPTY \<and> board ! i \<noteq> GHOST
                           then h XOR zobrist_table st i (nat (board ! i)) else h)
                   [0..<64] 0
      in if player = BLACK_MAN \<or> player = BLACK_KING then h XOR zobrist_black_move st else h)"

definition tt_index :: "64 word \<Rightarrow> nat" where
  "tt_index key = unat key mod TT_SIZE"

definition tt_save :: "engine_state \<Rightarrow> 64 word \<Rightarrow> int \<Rightarrow> int \<Rightarrow> int \<Rightarrow> Move \<Rightarrow> engine_state" where
  "tt_save st key score' depth' flag best_move =
     (let idx = tt_index key; e = transposition_table st idx in
      if e_key e \<noteq> key \<or> depth' \<ge> e_depth e
      then st\<lparr>transposition_table := (transposition_table st)
                (idx := \<lparr>e_key = key, e_score = score', e_depth = depth', e_flag = flag,
                         e_best_move = best_move\<rparr>)\<rparr>
      else st)"

text \<open>
  \<open>tt_probe\<close> returns \<open>bool\<close> and writes the reference parameters \<open>score\<close> and
  \<open>tt_move\<close>. The model returns \<open>Some score\<close> for \<open>true\<close> (the only case that writes
  \<open>score\<close>), \<open>None\<close> for \<open>false\<close>, and the value of \<open>tt_move\<close> after the call.
\<close>

definition mate_shift :: "int \<Rightarrow> int" where
  "mate_shift s0 =
     (let s1 = (if s0 > MATE - 1000 then s0 - MAX_PLY else s0);
          s2 = (if s1 < - MATE + 1000 then s1 + MAX_PLY else s1)
      in s2)"

definition tt_probe ::
  "engine_state \<Rightarrow> 64 word \<Rightarrow> int \<Rightarrow> int \<Rightarrow> int \<Rightarrow> Move \<Rightarrow> int option \<times> Move" where
  "tt_probe st key depth' alpha beta tt_move =
     (let e = transposition_table st (tt_index key) in
      if e_key e = key then
        (if e_depth e \<ge> depth' then
           (let s = mate_shift (e_score e) in
            if e_flag e = TT_EXACT then (Some s, e_best_move e)
            else if e_flag e = TT_ALPHA \<and> s \<le> alpha then (Some alpha, e_best_move e)
            else if e_flag e = TT_BETA \<and> s \<ge> beta then (Some beta, e_best_move e)
            else (None, e_best_move e))
         else (None, e_best_move e))
      else (None, tt_move))"

section \<open>Move ordering: score_move_ordering and pick_move\<close>

definition score_move_ordering :: "engine_state \<Rightarrow> Move \<Rightarrow> Move \<Rightarrow> int \<Rightarrow> int" where
  "score_move_ordering st m tt_best ply =
     (if move_eq m tt_best then 2000000
      else if count m > 0 \<and> \<bar>r1 (steps m ! 0) - r2 (steps m ! (count m - 1))\<bar> > 2
        then 1000000 + int (count m) * 1000
      else if r2 (steps m ! (count m - 1)) = 0 \<or> r2 (steps m ! (count m - 1)) = 7 then 950000
      else if move_eq m (killer_moves st (nat ply) 0) then 900000
      else if move_eq m (killer_moves st (nat ply) 1) then 800000
      else
        let from = nat (r1 (steps m ! 0) * 8 + c1 (steps m ! 0));
            to = nat (r2 (steps m ! (count m - 1)) * 8 + c2 (steps m ! (count m - 1)))
        in history_table st 0 from to)"

text \<open>
  \<open>pick_move\<close>: score every move from \<open>start_index\<close> on, remember the first best one,
  swap it to \<open>start_index\<close>. \<open>best_idx\<close> is \<open>-1\<close> while nothing was found.
\<close>

definition pick_scan ::
  "engine_state \<Rightarrow> Move \<Rightarrow> int \<Rightarrow> nat \<Rightarrow> MoveList \<times> int \<times> int \<Rightarrow> MoveList \<times> int \<times> int" where
  "pick_scan st tt_best ply i acc =
     (case acc of (moves, best_score, best_idx) \<Rightarrow>
        let s = score_move_ordering st (moves ! i) tt_best ply;
            moves' = moves[i := (moves ! i)\<lparr>score := s\<rparr>]
        in if s > best_score then (moves', s, int i) else (moves', best_score, best_idx))"

definition pick_move :: "engine_state \<Rightarrow> MoveList \<Rightarrow> nat \<Rightarrow> Move \<Rightarrow> int \<Rightarrow> MoveList" where
  "pick_move st moves start_index tt_best ply =
     (case fold (pick_scan st tt_best ply) [start_index..<length moves] (moves, - 2000000000, - 1) of
        (moves', best_score, best_idx) \<Rightarrow>
          if best_idx \<noteq> - 1
          then moves'[start_index := moves' ! nat best_idx, nat best_idx := moves' ! start_index]
          else moves')"

section \<open>Search: alpha_beta\<close>

lemma length_pick_scan_fold:
  "length (fst (fold (pick_scan st tt_best ply) is acc)) = length (fst acc)"
  by (induction "is" arbitrary: acc) (auto simp: pick_scan_def Let_def split: prod.splits)

lemma length_pick_move [simp]: "length (pick_move st moves start_index tt_best ply) = length moves"
  using length_pick_scan_fold [of st tt_best ply "[start_index..<length moves]" "(moves, - 2000000000, - 1)"]
  by (auto simp: pick_move_def split: prod.splits)

text \<open>
  The head of \<open>alpha_beta\<close>: \<^verbatim>\<open>nodes_visited++\<close> and, every 2048 nodes, the clock check
  that may set \<open>stop_search\<close>.
\<close>

definition count_node :: "(int \<Rightarrow> bool) \<Rightarrow> engine_state \<Rightarrow> engine_state" where
  "count_node time_up st =
     (let st1 = st\<lparr>nodes_visited := nodes_visited st + 1\<rparr> in
      if (nodes_visited st1) AND 2047 = 0 then
        (if time_up (nodes_visited st1) then st1\<lparr>stop_search := True\<rparr> else st1)
      else st1)"

text \<open>
  \<open>is_noisy\<close> at \<open>depth \<le> 0\<close>: a forced capture, or some move that is a promotion.
\<close>

definition is_noisy_node :: "board \<Rightarrow> MoveList \<Rightarrow> bool \<Rightarrow> bool" where
  "is_noisy_node board moves capture_forced =
     (if capture_forced then True
      else list_ex (\<lambda>m. is_promotion_move m (board ! sq (r1 (steps m ! 0)) (c1 (steps m ! 0)))) moves)"

definition enemy_of :: "int \<Rightarrow> int" where
  "enemy_of player = (if player = WHITE_MAN \<or> player = WHITE_KING then BLACK_MAN else WHITE_MAN)"

text \<open>
  The update at a beta cutoff by a quiet single-step move: the killers of the ply shift and
  \<^verbatim>\<open>history_table[player==WHITE_MAN||player==WHITE_KING?0:1][from][to] += depth * depth\<close>.
\<close>

definition cutoff_update :: "engine_state \<Rightarrow> int \<Rightarrow> int \<Rightarrow> int \<Rightarrow> Move \<Rightarrow> engine_state" where
  "cutoff_update st player ply depth' m =
     (let k0 = killer_moves st (nat ply) 0;
          km = (killer_moves st)(nat ply := ((killer_moves st (nat ply))(1 := k0, 0 := m)));
          from = nat (r1 (steps m ! 0) * 8 + c1 (steps m ! 0));
          to = nat (r2 (steps m ! 0) * 8 + c2 (steps m ! 0));
          side = (if player = WHITE_MAN \<or> player = WHITE_KING then 0 else 1);
          ht = history_table st
      in st\<lparr>killer_moves := km,
            history_table := ht(side := (ht side)(from := (ht side from)(to := ht side from to + depth' * depth')))\<rparr>)"

text \<open>
  The weight of a call for the termination of the search: the depth above the floor of
  \<open>-12\<close> plus the plies left in which a promotion may still extend the depth.
\<close>

definition ab_weight :: "int \<Rightarrow> int \<Rightarrow> nat" where
  "ab_weight d p = nat (d + 13) + nat (64 - p)"

text \<open>
  \<open>alpha_beta\<close> returns the score and the globals after the call; \<open>None\<close> is an
  out-of-bounds access in \<open>apply_move\<close>. \<open>search_moves\<close> is the \<^verbatim>\<open>for\<close> loop over the
  moves from index \<open>i\<close> on, with the locals \<open>alpha\<close>, \<open>best_score\<close>,
  \<open>best_move_local\<close> and \<open>flag\<close>; leaving the loop (by \<^verbatim>\<open>break\<close> at a beta cutoff or
  at its end) stores the node with \<open>tt_save\<close> and returns \<open>best_score\<close>. The log file
  is not modelled.
\<close>

function alpha_beta ::
    "(int \<Rightarrow> bool) \<Rightarrow> engine_state \<Rightarrow> board \<Rightarrow> int \<Rightarrow> int \<Rightarrow> int \<Rightarrow> int \<Rightarrow> int \<Rightarrow> bool
      \<Rightarrow> (int \<times> engine_state) option"
  and search_moves ::
    "(int \<Rightarrow> bool) \<Rightarrow> engine_state \<Rightarrow> board \<Rightarrow> int \<Rightarrow> int \<Rightarrow> int \<Rightarrow> int \<Rightarrow> int
      \<Rightarrow> MoveList \<Rightarrow> Move \<Rightarrow> 64 word \<Rightarrow> bool \<Rightarrow> nat \<Rightarrow> int \<Rightarrow> Move \<Rightarrow> int
      \<Rightarrow> (int \<times> engine_state) option"
where
  "alpha_beta time_up st board depth' alpha beta player ply do_null =
     (let st1 = count_node time_up st in
      if stop_search st1 then Some (0, st1)
      else
        let moves = generate_moves board player in
        if length moves = 0 then Some (- MATE + ply, st1)
        else
          let capture_forced = (length moves > 0 \<and> is_capture_move (moves ! 0)) in
          if depth' \<le> 0 \<and> (\<not> is_noisy_node board moves capture_forced \<or> depth' < - 12)
          then Some (evaluate board player, st1)
          else
            let h = compute_hash st1 board player;
                probe = tt_probe st1 h depth' alpha beta zero_move in
            if fst probe \<noteq> None \<and> ply > 0 then Some (the (fst probe), st1)
            else search_moves time_up st1 board depth' alpha beta player ply moves (snd probe) h
                   capture_forced 0 (- INF_SCORE) (moves ! 0) TT_ALPHA)"
| "search_moves time_up st board depth' alpha beta player ply moves tt_move h capture_forced i
      best_score best_move_local flag =
     (if i < length moves then
        let moves1 = pick_move st moves i tt_move ply;
            m = moves1 ! i;
            piece = board ! sq (r1 (steps m ! 0)) (c1 (steps m ! 0));
            promotion = is_promotion_move m piece;
            extension = (if promotion \<and> ply < MAX_PLY then 1 else 0);
            reduction = (if depth' \<ge> 3 \<and> \<not> capture_forced \<and> \<not> promotion \<and> count m = 1 \<and> i > 3
                         then 1 else 0)
        in
        case apply_move board m player 0 of
          None \<Rightarrow> None
        | Some (temp_board, captured) \<Rightarrow>
          (case
             (if i = 0 then
                map_option (\<lambda>(v, s). (- v, s))
                  (alpha_beta time_up st temp_board (depth' - 1 + extension) (- beta) (- alpha)
                     (enemy_of player) (ply + 1) True)
              else
                (case alpha_beta time_up st temp_board (depth' - 1 - reduction + extension)
                        (- alpha - 1) (- alpha) (enemy_of player) (ply + 1) True of
                   None \<Rightarrow> None
                 | Some (v, s) \<Rightarrow>
                     if - v > alpha \<and> - v < beta then
                       map_option (\<lambda>(v', s'). (- v', s'))
                         (alpha_beta time_up s temp_board (depth' - 1 + extension) (- beta) (- alpha)
                            (enemy_of player) (ply + 1) True)
                     else Some (- v, s)))
           of
             None \<Rightarrow> None
           | Some (score', st2) \<Rightarrow>
               if stop_search st2 then Some (0, st2)
               else if score' > best_score \<and> score' > alpha \<and> score' \<ge> beta then
                 Some (score',
                   tt_save (if \<not> capture_forced \<and> count m = 1
                            then cutoff_update st2 player ply depth' m else st2)
                     h score' depth' TT_BETA m)
               else
                 search_moves time_up st2 board depth'
                   (if score' > best_score \<and> score' > alpha then score' else alpha)
                   beta player ply moves1 tt_move h capture_forced (i + 1)
                   (if score' > best_score then score' else best_score)
                   (if score' > best_score then m else best_move_local)
                   (if score' > best_score \<and> score' > alpha then TT_EXACT else flag))
      else Some (best_score, tt_save st h best_score depth' flag best_move_local))"
  by pat_completeness auto


termination
  apply (relation "inv_image (less_than <*lex*> less_than)
     (\<lambda>x. case x of
        Inl (time_up, st, board, d, alpha, beta, player, ply, do_null) \<Rightarrow>
          (2 * ab_weight d ply + (if d \<ge> - 12 then 2 else 0), 0)
      | Inr (time_up, st, board, d, alpha, beta, player, ply, moves, tt_move, h, cf, i, bs, bm, flag) \<Rightarrow>
          (2 * ab_weight d ply + 1, length moves - i))")
      apply (intro wf_inv_image wf_lex_prod wf_less_than)
     apply (auto simp: ab_weight_def MAX_PLY_def)
  done

section \<open>The driver: get_best_move\<close>

text \<open>
  The inner loop of one iteration of the deepening, from index \<open>i\<close> on: it returns the
  globals and the locals \<open>current_best_score\<close> and \<open>current_best_move\<close>; it stops at
  once when \<open>stop_search\<close> is set after a search.
\<close>

function root_loop ::
  "(int \<Rightarrow> bool) \<Rightarrow> engine_state \<Rightarrow> board \<Rightarrow> int \<Rightarrow> MoveList \<Rightarrow> int \<Rightarrow> int \<Rightarrow> int \<Rightarrow> nat
     \<Rightarrow> int \<Rightarrow> Move \<Rightarrow> (engine_state \<times> int \<times> Move) option" where
  "root_loop time_up st board player root_moves d alpha beta i current_best_score current_best_move =
     (if i < length root_moves then
        let m = root_moves ! i;
            piece = board ! sq (r1 (steps m ! 0)) (c1 (steps m ! 0));
            promotion = is_promotion_move m piece;
            extension = (if promotion then 1 else 0)
        in
        case apply_move board m player 0 of
          None \<Rightarrow> None
        | Some (temp_board, captured) \<Rightarrow>
          (case
             (if i = 0 then
                map_option (\<lambda>(v, s). (- v, s))
                  (alpha_beta time_up st temp_board (d - 1 + extension) (- beta) (- alpha)
                     (enemy_of player) 1 True)
              else
                (case alpha_beta time_up st temp_board (d - 1 + extension)
                        (- alpha - 1) (- alpha) (enemy_of player) 1 True of
                   None \<Rightarrow> None
                 | Some (v, s) \<Rightarrow>
                     if - v > alpha \<and> - v < beta then
                       map_option (\<lambda>(v', s'). (- v', s'))
                         (alpha_beta time_up s temp_board (d - 1 + extension) (- beta) (- alpha)
                            (enemy_of player) 1 True)
                     else Some (- v, s)))
           of
             None \<Rightarrow> None
           | Some (score', st2) \<Rightarrow>
               if stop_search st2 then Some (st2, current_best_score, current_best_move)
               else
                 root_loop time_up st2 board player root_moves d
                   (if score' > current_best_score \<and> score' > alpha then score' else alpha) beta (i + 1)
                   (if score' > current_best_score then score' else current_best_score)
                   (if score' > current_best_score then m else current_best_move))
      else Some (st, current_best_score, current_best_move))"
  by pat_completeness auto
termination
  by (relation "measure (\<lambda>(time_up, st, board, player, root_moves, d, alpha, beta, i, cbs, cbm).
        length root_moves - i)") auto

text \<open>
  The deepening loop \<^verbatim>\<open>for (int d = 1; d <= max_depth; d++)\<close> with the locals
  \<open>root_moves\<close>, \<open>best_overall\<close>, \<open>best_score_overall\<close> and \<open>reached_depth\<close>.
\<close>

function deepening_loop ::
  "(int \<Rightarrow> bool) \<Rightarrow> engine_state \<Rightarrow> board \<Rightarrow> int \<Rightarrow> int \<Rightarrow> MoveList \<Rightarrow> int \<Rightarrow> Move \<Rightarrow> int \<Rightarrow> int
     \<Rightarrow> (engine_state \<times> MoveList \<times> Move \<times> int \<times> int) option" where
  "deepening_loop time_up st board player max_depth root_moves d best_overall best_score_overall
      reached_depth =
     (if d \<le> max_depth then
        let root_moves1 = pick_move st root_moves 0 best_overall 0 in
        case root_loop time_up st board player root_moves1 d (- INF_SCORE) INF_SCORE 0
               (- INF_SCORE) (root_moves1 ! 0) of
          None \<Rightarrow> None
        | Some (st2, current_best_score, current_best_move) \<Rightarrow>
            if stop_search st2
            then Some (st2, root_moves1, best_overall, best_score_overall, reached_depth)
            else if current_best_score > MATE - 5000
            then Some (st2, root_moves1, current_best_move, current_best_score, d)
            else deepening_loop time_up st2 board player max_depth root_moves1 (d + 1)
                   current_best_move current_best_score d
      else Some (st, root_moves, best_overall, best_score_overall, reached_depth))"
  by pat_completeness auto
termination
  by (relation "measure (\<lambda>(time_up, st, board, player, max_depth, root_moves, d, bo, bso, rd).
        nat (max_depth + 1 - d))") auto

text \<open>
  \<open>get_best_move\<close> returns the record behind \<open>result\<close> and the globals; the fields it
  does not write keep the value they had in \<open>result\<close>. \<open>nodes\<close> is
  \<^verbatim>\<open>(int)nodes_visited\<close>, a conversion to 32 bits. The calls of \<open>log_file\<close> change
  neither the result nor the globals of the search and are left out; \<open>limit_sec\<close> is
  only compared with the clock, which \<open>time_up\<close> stands for.
\<close>

definition get_best_move ::
  "(nat \<Rightarrow> nat \<Rightarrow> 64 word) \<Rightarrow> 64 word \<Rightarrow> (int \<Rightarrow> bool) \<Rightarrow> engine_state \<Rightarrow> board \<Rightarrow> int \<Rightarrow> int
     \<Rightarrow> MoveResult \<Rightarrow> (MoveResult \<times> engine_state) option" where
  "get_best_move zt zb time_up st flat_board player max_depth result =
     (let st0 = init_memory zt zb st;
          board = flat_board;
          root_moves = generate_moves board player in
      if length root_moves = 0 then Some (result\<lparr>count := 0, score := - MATE\<rparr>, st0)
      else if length root_moves = 1 then
        (let best = root_moves ! 0 in
         Some (result\<lparr>count := count best, steps := steps best, score := 0, depth := 1, nodes := 0\<rparr>,
               st0))
      else
        let st1 = st0\<lparr>stop_search := False, nodes_visited := 0\<rparr> in
        case deepening_loop time_up st1 board player max_depth root_moves 1 (root_moves ! 0)
               (- INF_SCORE) 0 of
          None \<Rightarrow> None
        | Some (st2, root_moves', best_overall, best_score_overall, reached_depth) \<Rightarrow>
            let res1 = result\<lparr>count := count best_overall, steps := steps best_overall,
                              score := best_score_overall, depth := reached_depth,
                              nodes := sint (word_of_int (nodes_visited st2) :: 32 word)\<rparr>;
                res2 = (if count res1 = 0 \<and> length root_moves' > 0
                        then res1\<lparr>count := count (root_moves' ! 0), steps := steps (root_moves' ! 0)\<rparr>
                        else res1)
            in Some (res2, st2))"

section \<open>Simplifier setup\<close>

text \<open>The recursive equations are unfolded by hand, never by the simplifier on its own.\<close>

declare king_landings.simps [simp del] king_jumps.simps [simp del]
  find_captures_recursive.simps [simp del] compact_loop.simps [simp del]
  king_slide.simps [simp del] capture_walk.simps [simp del]
  alpha_beta.simps [simp del] search_moves.simps [simp del]
  root_loop.simps [simp del] deepening_loop.simps [simp del]

section \<open>Concrete states and positions\<close>

text \<open>
  The globals at program start (static storage is zero-initialised, the table is not
  allocated), a result record, and boards given by the pieces on them.
\<close>

definition initial_state :: engine_state where
  "initial_state =
     \<lparr>tt_allocated = False, transposition_table = (\<lambda>idx. zero_entry),
      zobrist_table = (\<lambda>i p. 0), zobrist_black_move = 0,
      history_table = (\<lambda>s f t. 0), killer_moves = (\<lambda>ply k. zero_move),
      stop_search = False, nodes_visited = 0\<rparr>"

definition blank_result :: MoveResult where
  "blank_result = \<lparr>steps = [], count = 0, score = 0, depth = 0, nodes = 0\<rparr>"

definition place_pieces :: "(int \<times> int \<times> int) list \<Rightarrow> board" where
  "place_pieces ps = fold (\<lambda>(r, c, p) b. b[sq r c := p]) ps (replicate 64 EMPTY)"

section \<open>The transposition-table probe inside alpha_beta\<close>

text \<open>
  \<open>reaches_probe\<close>: the call is not stopped, has moves, and does not return the static
  evaluation, so it arrives at \<open>tt_probe\<close>. \<open>probe_at\<close> is the probe made there and
  \<open>search_from_probe\<close> the move loop that follows it.
\<close>

definition reaches_probe :: "(int \<Rightarrow> bool) \<Rightarrow> engine_state \<Rightarrow> board \<Rightarrow> int \<Rightarrow> int \<Rightarrow> bool" where
  "reaches_probe time_up st board depth' player \<longleftrightarrow>
     \<not> stop_search (count_node time_up st) \<and>
     generate_moves board player \<noteq> [] \<and>
     \<not> (depth' \<le> 0 \<and>
        (\<not> is_noisy_node board (generate_moves board player)
             (is_capture_move (generate_moves board player ! 0)) \<or> depth' < - 12))"

definition probe_at :: "(int \<Rightarrow> bool) \<Rightarrow> engine_state \<Rightarrow> board \<Rightarrow> int \<Rightarrow> int \<Rightarrow> int \<Rightarrow> int \<Rightarrow> int option \<times> Move" where
  "probe_at time_up st board depth' alpha beta player =
     tt_probe (count_node time_up st) (compute_hash (count_node time_up st) board player)
       depth' alpha beta zero_move"

definition search_from_probe ::
  "(int \<Rightarrow> bool) \<Rightarrow> engine_state \<Rightarrow> board \<Rightarrow> int \<Rightarrow> int \<Rightarrow> int \<Rightarrow> int \<Rightarrow> int \<Rightarrow> (int \<times> engine_state) option" where
  "search_from_probe time_up st board depth' alpha beta player ply =
     search_moves time_up (count_node time_up st) board depth' alpha beta player ply
       (generate_moves board player)
       (snd (probe_at time_up st board depth' alpha beta player))
       (compute_hash (count_node time_up st) board player)
       (is_capture_move (generate_moves board player ! 0))
       0 (- INF_SCORE) (generate_moves board player ! 0) TT_ALPHA"

lemma alpha_beta_at_probe:
  assumes "reaches_probe time_up st board d player"
  shows "alpha_beta time_up st board d alpha beta player ply do_null =
           (if fst (probe_at time_up st board d alpha beta player) \<noteq> None \<and> ply > 0
            then Some (the (fst (probe_at time_up st board d alpha beta player)), count_node time_up st)
            else search_from_probe time_up st board d alpha beta player ply)"
  using assms
  by (subst alpha_beta.simps)
     (auto simp: reaches_probe_def probe_at_def search_from_probe_def Let_def)

text \<open>
  C3: \<open>tt_probe\<close> at depth \<open>d\<close> with window \<open>[alpha, beta]\<close> reports a cutoff exactly
  when the stored key matches, the stored depth is at least \<open>d\<close>, and the flag is Exact,
  or Alpha with the mate-shifted score \<open>\<le> alpha\<close>, or Beta with the mate-shifted score
  \<open>\<ge> beta\<close>. In \<open>alpha_beta\<close> a call that reaches the probe returns the cutoff only
  when \<open>ply > 0\<close>; at \<open>ply \<le> 0\<close> (the root) it runs the move loop whatever the
  probe reported.
\<close>

theorem tt_probe_cutoff_contract:
  "(fst (tt_probe st key d alpha beta tm) \<noteq> None \<longleftrightarrow>
      e_key (transposition_table st (tt_index key)) = key \<and>
      e_depth (transposition_table st (tt_index key)) \<ge> d \<and>
      (e_flag (transposition_table st (tt_index key)) = TT_EXACT \<or>
       e_flag (transposition_table st (tt_index key)) = TT_ALPHA \<and>
         mate_shift (e_score (transposition_table st (tt_index key))) \<le> alpha \<or>
       e_flag (transposition_table st (tt_index key)) = TT_BETA \<and>
         mate_shift (e_score (transposition_table st (tt_index key))) \<ge> beta))
   \<and> (reaches_probe time_up st' board d player \<longrightarrow>
        (ply > 0 \<longrightarrow> fst (probe_at time_up st' board d alpha beta player) = Some v \<longrightarrow>
           alpha_beta time_up st' board d alpha beta player ply do_null
             = Some (v, count_node time_up st')) \<and>
        (ply \<le> 0 \<or> fst (probe_at time_up st' board d alpha beta player) = None \<longrightarrow>
           alpha_beta time_up st' board d alpha beta player ply do_null
             = search_from_probe time_up st' board d alpha beta player ply))"
proof -
  have A: "fst (tt_probe st key d alpha beta tm) \<noteq> None \<longleftrightarrow>
      e_key (transposition_table st (tt_index key)) = key \<and>
      e_depth (transposition_table st (tt_index key)) \<ge> d \<and>
      (e_flag (transposition_table st (tt_index key)) = TT_EXACT \<or>
       e_flag (transposition_table st (tt_index key)) = TT_ALPHA \<and>
         mate_shift (e_score (transposition_table st (tt_index key))) \<le> alpha \<or>
       e_flag (transposition_table st (tt_index key)) = TT_BETA \<and>
         mate_shift (e_score (transposition_table st (tt_index key))) \<ge> beta)"
    by (simp add: tt_probe_def Let_def)
  have B: "reaches_probe time_up st' board d player \<longrightarrow>
        (ply > 0 \<longrightarrow> fst (probe_at time_up st' board d alpha beta player) = Some v \<longrightarrow>
           alpha_beta time_up st' board d alpha beta player ply do_null
             = Some (v, count_node time_up st')) \<and>
        (ply \<le> 0 \<or> fst (probe_at time_up st' board d alpha beta player) = None \<longrightarrow>
           alpha_beta time_up st' board d alpha beta player ply do_null
             = search_from_probe time_up st' board d alpha beta player ply)"
    by (auto simp: alpha_beta_at_probe)
  from A B show ?thesis by blast
qed

theorem tt_probe_cutoff_witness:
  "reaches_probe (\<lambda>n. False) initial_state (place_pieces [(4, 3, WHITE_MAN), (3, 2, BLACK_MAN)]) 0 WHITE_MAN \<and>
   fst (probe_at (\<lambda>n. False) initial_state (place_pieces [(4, 3, WHITE_MAN), (3, 2, BLACK_MAN)])
          0 (- 50) 50 WHITE_MAN) = Some 0 \<and>
   alpha_beta (\<lambda>n. False) initial_state (place_pieces [(4, 3, WHITE_MAN), (3, 2, BLACK_MAN)])
       0 (- 50) 50 WHITE_MAN 1 True
     = Some (0, count_node (\<lambda>n. False) initial_state) \<and>
   alpha_beta (\<lambda>n. False) initial_state (place_pieces [(4, 3, WHITE_MAN), (3, 2, BLACK_MAN)])
       0 (- 50) 50 WHITE_MAN 0 True
     = search_from_probe (\<lambda>n. False) initial_state
         (place_pieces [(4, 3, WHITE_MAN), (3, 2, BLACK_MAN)]) 0 (- 50) 50 WHITE_MAN 0"
proof -
  let ?b = "place_pieces [(4, 3, WHITE_MAN), (3, 2, BLACK_MAN)]"
  have g: "generate_moves ?b WHITE_MAN
             = [\<lparr>steps = [\<lparr>r1 = 4, c1 = 3, r2 = 2, c2 = 1\<rparr>], count = 1, score = 0\<rparr>]"
    by code_simp
  have c: "count_node (\<lambda>n. False) initial_state = initial_state\<lparr>nodes_visited := 1\<rparr>"
    by (simp add: count_node_def initial_state_def Let_def)
  have r: "reaches_probe (\<lambda>n. False) initial_state ?b 0 WHITE_MAN"
    unfolding reaches_probe_def g c
    by (simp add: initial_state_def is_noisy_node_def is_capture_move_def)
  have h: "compute_hash (initial_state\<lparr>nodes_visited := 1\<rparr>) ?b WHITE_MAN = 0"
    by code_simp
  have p: "fst (probe_at (\<lambda>n. False) initial_state ?b 0 (- 50) 50 WHITE_MAN) = Some 0"
    unfolding probe_at_def c h
    by (simp add: tt_probe_def tt_index_def initial_state_def zero_entry_def
          TT_EXACT_def mate_shift_def MATE_def MAX_PLY_def Let_def)
  show ?thesis
    using r p
      tt_probe_cutoff_contract [where st = initial_state and key = 0 and tm = zero_move
        and time_up = "\<lambda>n. False" and st' = initial_state and board = ?b and d = 0
        and player = WHITE_MAN and ply = 1 and alpha = "- 50" and beta = 50 and v = 0
        and do_null = True]
      tt_probe_cutoff_contract [where st = initial_state and key = 0 and tm = zero_move
        and time_up = "\<lambda>n. False" and st' = initial_state and board = ?b and d = 0
        and player = WHITE_MAN and ply = 0 and alpha = "- 50" and beta = 50 and v = 0
        and do_null = True]
    by simp
qed

section \<open>Cancellation\<close>

text \<open>
  C5: once \<open>stop_search\<close> is set, every call of \<open>alpha_beta\<close> returns 0; of the globals
  only the node counter changes (the clock check can only set the flag again), so no move
  is generated, the transposition table is neither probed nor written, and nothing recurses.
\<close>

theorem alpha_beta_stopped_returns_zero:
  assumes "stop_search st"
  shows "alpha_beta time_up st board d alpha beta player ply do_null
           = Some (0, st\<lparr>nodes_visited := nodes_visited st + 1\<rparr>)"
proof -
  have "count_node time_up st = st\<lparr>nodes_visited := nodes_visited st + 1\<rparr>"
    using assms by (cases st) (simp add: count_node_def Let_def)
  then show ?thesis
    using assms by (subst alpha_beta.simps) (simp add: Let_def)
qed

theorem alpha_beta_stopped_witness:
  "stop_search (initial_state\<lparr>stop_search := True, nodes_visited := 2047\<rparr>) \<and>
   alpha_beta (\<lambda>n. False) (initial_state\<lparr>stop_search := True, nodes_visited := 2047\<rparr>)
       (place_pieces [(4, 3, WHITE_MAN), (3, 2, BLACK_MAN)]) 3 (- 50) 50 WHITE_MAN 1 True
     = Some (0, initial_state\<lparr>stop_search := True, nodes_visited := 2048\<rparr>)"
  using alpha_beta_stopped_returns_zero
    [of "initial_state\<lparr>stop_search := True, nodes_visited := 2047\<rparr>" "\<lambda>n. False"
        "place_pieces [(4, 3, WHITE_MAN), (3, 2, BLACK_MAN)]" 3 "- 50" 50 WHITE_MAN 1 True]
  by (simp add: initial_state_def)

section \<open>The shortcuts of get_best_move\<close>

text \<open>
  C6: when the side to move has no legal move, \<open>get_best_move\<close> writes \<open>count = 0\<close> and
  \<open>score = -MATE\<close> to the result and returns; the globals are those left by
  \<open>init_memory\<close>, so no search ran.
\<close>

theorem get_best_move_no_moves:
  assumes "generate_moves flat_board player = []"
  shows "get_best_move zt zb time_up st flat_board player max_depth result
           = Some (result\<lparr>count := 0, score := - MATE\<rparr>, init_memory zt zb st)"
  using assms by (simp add: get_best_move_def Let_def)

theorem get_best_move_no_moves_witness:
  "generate_moves (place_pieces [(1, 0, WHITE_MAN), (0, 1, BLACK_KING)]) WHITE_MAN = [] \<and>
   get_best_move (\<lambda>i p. 0) 0 (\<lambda>n. False) initial_state
       (place_pieces [(1, 0, WHITE_MAN), (0, 1, BLACK_KING)]) WHITE_MAN 4 blank_result
     = Some (blank_result\<lparr>count := 0, score := - 900000\<rparr>, init_memory (\<lambda>i p. 0) 0 initial_state)"
proof -
  have h: "generate_moves (place_pieces [(1, 0, WHITE_MAN), (0, 1, BLACK_KING)]) WHITE_MAN = []"
    by code_simp
  show ?thesis
    using h get_best_move_no_moves [OF h, of "\<lambda>i p. 0" 0 "\<lambda>n. False" initial_state 4 blank_result]
    by (simp add: MATE_def)
qed

text \<open>
  C7: when exactly one root move exists, \<open>get_best_move\<close> returns it at once with
  \<open>depth = 1\<close>, \<open>score = 0\<close> and \<open>nodes = 0\<close>; the globals are those left by
  \<open>init_memory\<close>, so no deepening ran.
\<close>

theorem get_best_move_single_move:
  assumes "length (generate_moves flat_board player) = 1"
  shows "get_best_move zt zb time_up st flat_board player max_depth result
           = Some (result\<lparr>count := count (generate_moves flat_board player ! 0),
                          steps := steps (generate_moves flat_board player ! 0),
                          score := 0, depth := 1, nodes := 0\<rparr>,
                   init_memory zt zb st)"
  using assms by (auto simp: get_best_move_def Let_def)

theorem get_best_move_single_move_witness:
  "length (generate_moves (place_pieces [(5, 0, WHITE_MAN)]) WHITE_MAN) = 1 \<and>
   get_best_move (\<lambda>i p. 0) 0 (\<lambda>n. False) initial_state
       (place_pieces [(5, 0, WHITE_MAN)]) WHITE_MAN 4 blank_result
     = Some (\<lparr>steps = [\<lparr>r1 = 5, c1 = 0, r2 = 4, c2 = 1\<rparr>], count = 1, score = 0, depth = 1, nodes = 0\<rparr>,
             init_memory (\<lambda>i p. 0) 0 initial_state)"
proof -
  have g: "generate_moves (place_pieces [(5, 0, WHITE_MAN)]) WHITE_MAN = [quiet_move 5 0 4 1]"
    by code_simp
  then have h: "length (generate_moves (place_pieces [(5, 0, WHITE_MAN)]) WHITE_MAN) = 1"
    by simp
  show ?thesis
    using h get_best_move_single_move [OF h, of "\<lambda>i p. 0" 0 "\<lambda>n. False" initial_state 4 blank_result]
    by (simp add: g quiet_move_def blank_result_def)
qed

section \<open>Move equality\<close>

text \<open>
  A position where a man captures four men around a ring, clockwise or counter-clockwise:
  two different chains with the same length, origin and final square.
\<close>

definition ring_board :: board where
  "ring_board = place_pieces [(6, 3, WHITE_MAN), (5, 2, BLACK_MAN), (5, 4, BLACK_MAN),
                              (3, 2, BLACK_MAN), (3, 4, BLACK_MAN)]"

definition ring_left :: Move where
  "ring_left = \<lparr>steps = [\<lparr>r1 = 6, c1 = 3, r2 = 4, c2 = 1\<rparr>, \<lparr>r1 = 4, c1 = 1, r2 = 2, c2 = 3\<rparr>,
                          \<lparr>r1 = 2, c1 = 3, r2 = 4, c2 = 5\<rparr>, \<lparr>r1 = 4, c1 = 5, r2 = 6, c2 = 3\<rparr>],
                 count = 4, score = 0\<rparr>"

definition ring_right :: Move where
  "ring_right = \<lparr>steps = [\<lparr>r1 = 6, c1 = 3, r2 = 4, c2 = 5\<rparr>, \<lparr>r1 = 4, c1 = 5, r2 = 2, c2 = 3\<rparr>,
                           \<lparr>r1 = 2, c1 = 3, r2 = 4, c2 = 1\<rparr>, \<lparr>r1 = 4, c1 = 1, r2 = 6, c2 = 3\<rparr>],
                  count = 4, score = 0\<rparr>"

lemma generate_moves_ring: "generate_moves ring_board WHITE_MAN = [ring_left, ring_right]"
  by code_simp

text \<open>
  C9: move equality compares the step count, the source of the first step and the
  destination of the last step only. So a chain that agrees with another in these compares
  equal to it, gets the TT-best score when the other is the TT best move, and gets a killer
  score when the other is a killer of the ply (and no earlier rule of the ordering applies).
\<close>

theorem move_eq_endpoints_only:
  "(move_eq m other \<longleftrightarrow>
      count m = count other \<and>
      (count m = 0 \<or>
       r1 (steps m ! 0) = r1 (steps other ! 0) \<and> c1 (steps m ! 0) = c1 (steps other ! 0) \<and>
       r2 (steps m ! (count m - 1)) = r2 (steps other ! (count other - 1)) \<and>
       c2 (steps m ! (count m - 1)) = c2 (steps other ! (count other - 1))))
   \<and> (move_eq m other \<longrightarrow> score_move_ordering st m other ply = 2000000)
   \<and> (move_eq m other \<longrightarrow> \<not> move_eq m tt_best \<longrightarrow>
        \<not> (count m > 0 \<and> \<bar>r1 (steps m ! 0) - r2 (steps m ! (count m - 1))\<bar> > 2) \<longrightarrow>
        r2 (steps m ! (count m - 1)) \<noteq> 0 \<longrightarrow> r2 (steps m ! (count m - 1)) \<noteq> 7 \<longrightarrow>
          (killer_moves st (nat ply) 0 = other \<longrightarrow> score_move_ordering st m tt_best ply = 900000) \<and>
          (\<not> move_eq m (killer_moves st (nat ply) 0) \<longrightarrow> killer_moves st (nat ply) 1 = other \<longrightarrow>
             score_move_ordering st m tt_best ply = 800000))"
  by (auto simp: move_eq_def score_move_ordering_def Let_def)

theorem move_eq_endpoints_witness:
  "generate_moves ring_board WHITE_MAN = [ring_left, ring_right] \<and> ring_left \<noteq> ring_right \<and>
   move_eq ring_left ring_right \<and>
   score_move_ordering initial_state ring_left ring_right 0 = 2000000 \<and>
   score_move_ordering (initial_state\<lparr>killer_moves := (\<lambda>ply k. if k = 0 then ring_right else zero_move)\<rparr>)
       ring_left zero_move 0 = 900000 \<and>
   score_move_ordering (initial_state\<lparr>killer_moves := (\<lambda>ply k. if k = 1 then ring_right else zero_move)\<rparr>)
       ring_left zero_move 0 = 800000"
proof -
  have e: "move_eq ring_left ring_right"
    by (simp add: move_eq_def ring_left_def ring_right_def)
  have n: "ring_left \<noteq> ring_right"
    by (simp add: ring_left_def ring_right_def)
  have z: "\<not> move_eq ring_left zero_move"
    by (simp add: move_eq_def ring_left_def zero_move_def)
  have l: "\<not> (count ring_left > 0 \<and>
             \<bar>r1 (steps ring_left ! 0) - r2 (steps ring_left ! (count ring_left - 1))\<bar> > 2)"
          "r2 (steps ring_left ! (count ring_left - 1)) \<noteq> 0"
          "r2 (steps ring_left ! (count ring_left - 1)) \<noteq> 7"
    by (simp_all add: ring_left_def)
  have k0: "killer_moves (initial_state\<lparr>killer_moves := (\<lambda>ply k. if k = 0 then ring_right else zero_move)\<rparr>)
              (nat 0) 0 = ring_right"
    by simp
  have k1: "killer_moves (initial_state\<lparr>killer_moves := (\<lambda>ply k. if k = 1 then ring_right else zero_move)\<rparr>)
              (nat 0) 1 = ring_right"
           "\<not> move_eq ring_left
               (killer_moves (initial_state\<lparr>killer_moves := (\<lambda>ply k. if k = 1 then ring_right else zero_move)\<rparr>)
                  (nat 0) 0)"
    using z by simp_all
  have s1: "score_move_ordering initial_state ring_left ring_right 0 = 2000000"
    using e move_eq_endpoints_only [where m = ring_left and other = ring_right
        and st = initial_state and ply = 0 and tt_best = zero_move]
    by blast
  have s2: "score_move_ordering
              (initial_state\<lparr>killer_moves := (\<lambda>ply k. if k = 0 then ring_right else zero_move)\<rparr>)
              ring_left zero_move 0 = 900000"
    using e z l k0 move_eq_endpoints_only [where m = ring_left and other = ring_right and ply = 0
        and tt_best = zero_move
        and st = "initial_state\<lparr>killer_moves := (\<lambda>ply k. if k = 0 then ring_right else zero_move)\<rparr>"]
    by blast
  have s3: "score_move_ordering
              (initial_state\<lparr>killer_moves := (\<lambda>ply k. if k = 1 then ring_right else zero_move)\<rparr>)
              ring_left zero_move 0 = 800000"
    using e z l k1 move_eq_endpoints_only [where m = ring_left and other = ring_right and ply = 0
        and tt_best = zero_move
        and st = "initial_state\<lparr>killer_moves := (\<lambda>ply k. if k = 1 then ring_right else zero_move)\<rparr>"]
    by blast
  show ?thesis
    using e n s1 s2 s3 generate_moves_ring by blast
qed

section \<open>Bounds on the generated move list\<close>

text \<open>
  \<open>chain_ok\<close>: a move with 1 to 12 steps, all of them written. \<open>list_ok\<close>: a move list
  that fits the array of 128 and holds such moves only. Every loop of the generator keeps
  \<open>list_ok\<close>.
\<close>

definition chain_ok :: "Move \<Rightarrow> bool" where
  "chain_ok m \<longleftrightarrow> 1 \<le> count m \<and> count m \<le> 12 \<and> length (steps m) = count m"

definition list_ok :: "MoveList \<Rightarrow> bool" where
  "list_ok ms \<longleftrightarrow> length ms \<le> 128 \<and> (\<forall>m \<in> set ms. chain_ok m)"

lemma list_ok_Nil [simp]: "list_ok []"
  by (simp add: list_ok_def)

lemma push_back_ok: "list_ok ms \<Longrightarrow> chain_ok m \<Longrightarrow> list_ok (push_back ms m)"
  by (auto simp: list_ok_def push_back_def)

lemma find_captures_recursive_ok:
  "list_ok moves \<Longrightarrow> count cur \<le> 12 \<Longrightarrow> length (steps cur) = count cur
     \<Longrightarrow> list_ok (find_captures_recursive board r c piece cur moves)"
proof (induction board r c piece cur moves rule: find_captures_recursive.induct)
  case (1 board r c piece cur moves)
  show ?case
  proof (cases "12 \<le> count cur")
    case True
    with "1.prems" have "chain_ok cur" by (simp add: chain_ok_def)
    with True "1.prems"(1) show ?thesis
      by (subst find_captures_recursive.simps) (simp add: push_back_ok)
  next
    case False
    let ?js = "all_jumps board r c piece"
    let ?f = "\<lambda>j ms. find_captures_recursive (jump_board board r c piece j)
                 (fst (snd (snd j))) (snd (snd (snd j))) piece
                 (add_step cur \<lparr>r1 = r, c1 = c, r2 = fst (snd (snd j)), c2 = snd (snd (snd j))\<rparr>) ms"
    have step: "list_ok (?f j ms)" if "j \<in> set ?js" "list_ok ms" for j ms
      using "1.IH" [OF False refl that(1) that(2)] False "1.prems"(2,3)
      by (simp add: add_step_def)
    have fold_ok: "list_ok (fold ?f ?js moves)"
      by (rule fold_invariant [where Q = "\<lambda>j. j \<in> set ?js" and P = list_ok])
         (auto intro: step "1.prems"(1))
    have cur_ok: "chain_ok cur" if "count cur > 0"
      using that False "1.prems"(3) by (simp add: chain_ok_def)
    show ?thesis
      using False fold_ok cur_ok
      by (subst find_captures_recursive.simps) (auto simp: Let_def push_back_ok)
  qed
qed

lemma capture_scan_ok: "list_ok (capture_scan board player)"
  unfolding capture_scan_def
  by (rule fold_invariant [where Q = "\<lambda>i. True" and P = list_ok])
     (auto intro!: find_captures_recursive_ok simp: empty_move_def)

lemma max_fold_eq:
  "fold (\<lambda>m mx. if count m > mx then count m else mx) ms a = Max (insert a (count ` set ms))"
proof -
  have e: "(\<lambda>m mx. if count m > mx then count m else mx) = max \<circ> count"
    by (auto simp: fun_eq_iff max_def)
  have "fold (\<lambda>m mx. if count m > mx then count m else mx) ms a = fold max (map count ms) a"
    unfolding e fold_map ..
  also have "\<dots> = Max (set (a # map count ms))"
    by (simp only: Max.set_eq_fold)
  finally show ?thesis by simp
qed

lemma max_capture_count_eq:
  "ms \<noteq> [] \<Longrightarrow> max_capture_count ms = Max (count ` set ms)"
  unfolding max_capture_count_def max_fold_eq
  by (simp add: max_def)

lemma compact_loop_spec:
  "w \<le> i \<Longrightarrow> i \<le> length ms \<Longrightarrow> compact_loop mx ms i w = (ms', w')
     \<Longrightarrow> take w' ms' = take w ms @ filter (\<lambda>m. count m = mx) (drop i ms)"
proof (induction mx ms i w rule: compact_loop.induct)
  case (1 mx moves i write_idx)
  show ?case
  proof (cases "i < length moves")
    case False
    with "1.prems" show ?thesis
      by (subst (asm) compact_loop.simps) simp
  next
    case True
    note d = Cons_nth_drop_Suc [OF True, symmetric]
    show ?thesis
    proof (cases "count (moves ! i) = mx")
      case hit: True
      from "1.prems"(3) True hit
      have r: "compact_loop mx (moves[write_idx := moves ! i]) (i + 1) (write_idx + 1) = (ms', w')"
        by (subst (asm) compact_loop.simps) simp
      have "take w' ms' = take (write_idx + 1) (moves[write_idx := moves ! i])
              @ filter (\<lambda>m. count m = mx) (drop (i + 1) (moves[write_idx := moves ! i]))"
        using "1.IH"(1) [OF True hit _ _ r] "1.prems"(1) True by simp
      moreover have "take (write_idx + 1) (moves[write_idx := moves ! i]) = take write_idx moves @ [moves ! i]"
        using "1.prems"(1) True by (simp add: take_Suc_conv_app_nth)
      moreover have "drop (i + 1) (moves[write_idx := moves ! i]) = drop (i + 1) moves"
        using "1.prems"(1) by simp
      ultimately show ?thesis
        using hit d by simp
    next
      case miss: False
      from "1.prems"(3) True miss
      have r: "compact_loop mx moves (i + 1) write_idx = (ms', w')"
        by (subst (asm) compact_loop.simps) simp
      have "take w' ms' = take write_idx moves @ filter (\<lambda>m. count m = mx) (drop (i + 1) moves)"
        using "1.IH"(2) [OF True miss _ _ r] "1.prems"(1) True by simp
      then show ?thesis
        using miss d by simp
    qed
  qed
qed

lemma keep_max_captures_filter:
  "keep_max_captures moves = filter (\<lambda>m. count m = max_capture_count moves) moves"
proof -
  obtain ms' w' where r: "compact_loop (max_capture_count moves) moves 0 0 = (ms', w')"
    by (cases "compact_loop (max_capture_count moves) moves 0 0") auto
  from compact_loop_spec [OF _ _ r] show ?thesis
    by (simp add: keep_max_captures_def r)
qed

lemma list_ok_filter: "list_ok ms \<Longrightarrow> list_ok (filter P ms)"
  by (auto simp: list_ok_def intro: le_trans [OF length_filter_le])

lemma quiet_move_ok [simp]: "chain_ok (quiet_move r c nr nc)"
  by (simp add: chain_ok_def quiet_move_def)

lemma man_quiet_ok: "list_ok ms \<Longrightarrow> list_ok (man_quiet board w r c ms)"
  unfolding man_quiet_def
  by (rule fold_invariant [where Q = "\<lambda>i. True" and P = list_ok])
     (auto simp: Let_def push_back_ok)

lemma king_slide_ok: "list_ok ms \<Longrightarrow> list_ok (king_slide board r c k dist ms)"
proof (induction board r c k dist ms rule: king_slide.induct)
  case (1 board r c k dist moves)
  then show ?case
    by (subst king_slide.simps) (auto simp: Let_def push_back_ok)
qed

lemma king_quiet_ok: "list_ok ms \<Longrightarrow> list_ok (king_quiet board r c ms)"
  unfolding king_quiet_def
  by (rule fold_invariant [where Q = "\<lambda>i. True" and P = list_ok])
     (auto simp: king_slide_ok)

lemma quiet_square_ok: "list_ok ms \<Longrightarrow> list_ok (quiet_square board player r c ms)"
  by (simp add: quiet_square_def Let_def man_quiet_ok king_quiet_ok)

lemma quiet_scan_ok: "list_ok (quiet_scan board player)"
  unfolding quiet_scan_def
  by (rule fold_invariant [where Q = "\<lambda>i. True" and P = list_ok], simp, simp,
      rule fold_invariant [where Q = "\<lambda>i. True" and P = list_ok])
     (auto simp: quiet_square_ok)

lemma generate_moves_ok: "list_ok (generate_moves board player)"
  by (simp add: generate_moves_def Let_def keep_max_captures_filter list_ok_filter
        capture_scan_ok quiet_scan_ok)

text \<open>A board with 28 white kings on its border squares: 144 quiet moves are possible.\<close>

definition crowded_board :: board where
  "crowded_board =
     place_pieces (map (\<lambda>c. (0, c, WHITE_KING)) [0, 1, 2, 3, 4, 5, 6, 7] @
                   map (\<lambda>c. (7, c, WHITE_KING)) [0, 1, 2, 3, 4, 5, 6, 7] @
                   map (\<lambda>r. (r, 0, WHITE_KING)) [1, 2, 3, 4, 5, 6] @
                   map (\<lambda>r. (r, 7, WHITE_KING)) [1, 2, 3, 4, 5, 6])"

lemma length_generate_moves_crowded: "length (generate_moves crowded_board WHITE_MAN) = 128"
  by code_simp

text \<open>
  C10: \<open>push_back\<close> leaves a list of 128 moves unchanged, so every list produced by
  \<open>generate_moves\<close> has at most 128 entries (further candidates are dropped), and every
  move in it has between 1 and 12 steps.
\<close>

theorem move_list_bounds:
  "(length moves = 128 \<longrightarrow> push_back moves m = moves) \<and>
   length (generate_moves board player) \<le> 128 \<and>
   (\<forall>mv \<in> set (generate_moves board player). 1 \<le> count mv \<and> count mv \<le> 12)"
  using generate_moves_ok [of board player]
  by (simp add: push_back_def list_ok_def chain_ok_def)

theorem move_list_bounds_witness:
  "length (generate_moves crowded_board WHITE_MAN) = 128 \<and>
   push_back (generate_moves crowded_board WHITE_MAN) (quiet_move 6 7 5 6)
     = generate_moves crowded_board WHITE_MAN \<and>
   1 \<le> count (generate_moves crowded_board WHITE_MAN ! 127) \<and>
   count (generate_moves crowded_board WHITE_MAN ! 127) \<le> 12"
proof -
  have "generate_moves crowded_board WHITE_MAN ! 127 \<in> set (generate_moves crowded_board WHITE_MAN)"
    using length_generate_moves_crowded by simp
  then show ?thesis
    using length_generate_moves_crowded
      move_list_bounds [of "generate_moves crowded_board WHITE_MAN" "quiet_move 6 7 5 6"
        crowded_board WHITE_MAN]
    by blast
qed

section \<open>The cap of 12 steps\<close>




section \<open>apply_move on a chain that crosses its own final square\<close>

text \<open>
  A white king on \<open>(3, 6)\<close> and four black men. The generator emits the chain
  \<open>(3,6) \<rightarrow> (6,3) \<rightarrow> (3,0) \<rightarrow> (1,2) \<rightarrow> (4,5)\<close>, whose first step passes over the
  final square \<open>(4, 5)\<close>.
\<close>

definition crossing_board :: board where
  "crossing_board = place_pieces [(3, 6, WHITE_KING), (2, 1, BLACK_MAN), (3, 4, BLACK_MAN),
                                  (5, 2, BLACK_MAN), (5, 4, BLACK_MAN)]"

definition crossing_move :: Move where
  "crossing_move = \<lparr>steps = [\<lparr>r1 = 3, c1 = 6, r2 = 6, c2 = 3\<rparr>, \<lparr>r1 = 6, c1 = 3, r2 = 3, c2 = 0\<rparr>,
                             \<lparr>r1 = 3, c1 = 0, r2 = 1, c2 = 2\<rparr>, \<lparr>r1 = 1, c1 = 2, r2 = 4, c2 = 5\<rparr>],
                     count = 4, score = 0\<rparr>"

text \<open>
  C2: \<open>apply_move\<close> on the first move generated for this position. The king is put on
  the final square \<open>(4, 5)\<close> before the walks; the walk of the first step then clears two
  squares, \<open>(4, 5)\<close> with the king itself and \<open>(5, 4)\<close> with the captured man, and the
  board that \<open>apply_move\<close> returns is empty. So the walk of a step does not stop at the
  first piece it meets and can clear more than one.
\<close>

theorem apply_move_clears_two_in_one_step:
  "generate_moves crossing_board WHITE_MAN ! 0 = crossing_move \<and>
   step_walk (crossing_board[sq 3 6 := EMPTY, sq 4 5 := WHITE_KING]) 0 (steps crossing_move ! 0)
     = Some (crossing_board[sq 3 6 := EMPTY, sq 4 5 := EMPTY, sq 5 4 := EMPTY], BLACK_MAN) \<and>
   apply_move crossing_board crossing_move WHITE_MAN 0 = Some (replicate 64 EMPTY, BLACK_MAN)"
proof -
  have a: "generate_moves crossing_board WHITE_MAN ! 0 = crossing_move"
    by code_simp
  have b: "step_walk (crossing_board[sq 3 6 := EMPTY, sq 4 5 := WHITE_KING]) 0 (steps crossing_move ! 0)
     = Some (crossing_board[sq 3 6 := EMPTY, sq 4 5 := EMPTY, sq 5 4 := EMPTY], BLACK_MAN)"
    by code_simp
  have c: "apply_move crossing_board crossing_move WHITE_MAN 0 = Some (replicate 64 EMPTY, BLACK_MAN)"
    by code_simp
  from a b c show ?thesis by blast
qed

section \<open>Forced maximum capture: what generate_moves returns\<close>

subsection \<open>The quiet moves without the cap of the list\<close>

text \<open>
  \<open>push_all\<close> pushes a list of moves one by one. \<open>quiet_list\<close> is the scan of the quiet
  loop (squares in index order, directions in array order, distances ascending) with the
  moves collected in an unbounded list; \<open>slide_list\<close>, \<open>man_list\<close>, \<open>king_list\<close> and
  \<open>quiet_from\<close> are its parts. The quiet loop of the source is \<open>quiet_list\<close> cut to 128.
\<close>

definition push_all :: "MoveList \<Rightarrow> Move list \<Rightarrow> MoveList" where
  "push_all ms xs = fold (\<lambda>x acc. push_back acc x) xs ms"

function slide_list :: "board \<Rightarrow> int \<Rightarrow> int \<Rightarrow> nat \<Rightarrow> int \<Rightarrow> Move list" where
  "slide_list board r c k dist =
     (if 4 \<le> k then []
      else let nr = r + dist * (drs ! k); nc = c + dist * (dcs ! k) in
        if \<not> is_valid nr nc \<or> board ! sq nr nc \<noteq> EMPTY then []
        else quiet_move r c nr nc # slide_list board r c k (dist + 1))"
  by pat_completeness auto
termination
proof (relation "measure (\<lambda>(board, r, c, k, dist).
          nat (if drs ! k = 1 then 8 - (r + dist) else r - dist + 1))")
  show "wf (measure (\<lambda>(board, r, c, k, dist).
          nat (if drs ! k = 1 then 8 - (r + dist) else r - dist + 1)))"
    by simp
next
  fix board :: board and r c :: int and k :: nat and dist x xa :: int
  assume k: "\<not> 4 \<le> k"
    and x: "x = r + dist * drs ! k"
    and v: "\<not> (\<not> is_valid x xa \<or> board ! sq x xa \<noteq> EMPTY)"
  from k have "k = 0 \<or> k = 1 \<or> k = 2 \<or> k = 3" by arith
  then have "drs ! k = 1 \<or> drs ! k = -1" by (auto simp: drs_def)
  with x v show "((board, r, c, k, dist + 1), (board, r, c, k, dist))
     \<in> measure (\<lambda>(board, r, c, k, dist).
          nat (if drs ! k = 1 then 8 - (r + dist) else r - dist + 1))"
    by (auto simp: is_valid_def)
qed

declare slide_list.simps [simp del]

definition man_list :: "board \<Rightarrow> bool \<Rightarrow> int \<Rightarrow> int \<Rightarrow> Move list" where
  "man_list board is_white r c =
     concat (map (\<lambda>dc. let nr = r + (if is_white then -1 else 1); nc = c + dc in
                         if is_valid nr nc \<and> board ! sq nr nc = EMPTY
                         then [quiet_move r c nr nc] else [])
                 [-1, 1])"

definition king_list :: "board \<Rightarrow> int \<Rightarrow> int \<Rightarrow> Move list" where
  "king_list board r c = concat (map (\<lambda>k. slide_list board r c k 1) [0..<4])"

definition quiet_from :: "board \<Rightarrow> int \<Rightarrow> int \<Rightarrow> int \<Rightarrow> Move list" where
  "quiet_from board player r c =
     (if board ! sq r c = my_man_of player then man_list board (is_white_of player) r c
      else if board ! sq r c = my_king_of player then king_list board r c
      else [])"

definition quiet_list :: "board \<Rightarrow> int \<Rightarrow> Move list" where
  "quiet_list board player =
     concat (map (\<lambda>r. concat (map (\<lambda>c. quiet_from board player (int r) (int c)) [0..<8])) [0..<8])"

lemma push_all_Nil [simp]: "push_all ms [] = ms"
  by (simp add: push_all_def)

lemma push_all_Cons [simp]: "push_all ms (x # xs) = push_all (push_back ms x) xs"
  by (simp add: push_all_def)

lemma push_all_append: "push_all ms (xs @ ys) = push_all (push_all ms xs) ys"
  by (simp add: push_all_def)

lemma push_all_take: "length ms \<le> 128 \<Longrightarrow> push_all ms xs = take 128 (ms @ xs)"
proof (induction xs arbitrary: ms)
  case Nil
  then show ?case by simp
next
  case (Cons x xs)
  show ?case
  proof (cases "length ms < 128")
    case True
    then have "push_all (push_back ms x) xs = take 128 ((ms @ [x]) @ xs)"
      using Cons.IH [of "ms @ [x]"] by (simp add: push_back_def)
    then show ?thesis by simp
  next
    case False
    with Cons.prems have l: "length ms = 128" by simp
    then have "push_all (push_back ms x) xs = take 128 (ms @ xs)"
      using Cons.IH [of ms] by (simp add: push_back_def)
    with l show ?thesis by simp
  qed
qed

lemma fold_push_all_concat:
  "fold (\<lambda>x acc. push_all acc (g x)) xs ms = push_all ms (concat (map g xs))"
  by (induction xs arbitrary: ms) (simp_all add: push_all_append)

lemma upt_0_2: "[0..<2] = [0, Suc 0]"
  by (simp add: upt_rec)

lemma man_quiet_push_all: "man_quiet board w r c ms = push_all ms (man_list board w r c)"
  by (simp add: man_quiet_def man_list_def upt_0_2 Let_def)

lemma king_slide_push_all:
  "king_slide board r c k dist ms = push_all ms (slide_list board r c k dist)"
proof (induction board r c k dist ms rule: king_slide.induct)
  case (1 board r c k dist moves)
  show ?case
    using "1.IH"
    by (subst king_slide.simps, subst slide_list.simps) (auto simp: Let_def)
qed

lemma king_quiet_push_all: "king_quiet board r c ms = push_all ms (king_list board r c)"
  by (simp add: king_quiet_def king_list_def king_slide_push_all fold_push_all_concat)

lemma quiet_square_push_all:
  "quiet_square board player r c ms = push_all ms (quiet_from board player r c)"
  by (simp add: quiet_square_def quiet_from_def Let_def man_quiet_push_all king_quiet_push_all)

lemma quiet_scan_take: "quiet_scan board player = take 128 (quiet_list board player)"
proof -
  have "quiet_scan board player = push_all [] (quiet_list board player)"
    by (simp add: quiet_scan_def quiet_list_def quiet_square_push_all fold_push_all_concat)
  then show ?thesis
    by (simp add: push_all_take)
qed

subsection \<open>Legal quiet moves, in the words of the specification\<close>

text \<open>
  Following the specification: a man steps one square diagonally forward (white towards
  row 0, black towards row 7) to an empty square; a king slides any positive number of
  empty squares along one of the four diagonals, one move per reachable square.
\<close>

definition forward_dir :: "int \<Rightarrow> int" where
  "forward_dir player = (if is_white_of player then - 1 else 1)"

definition man_quiet_step :: "board \<Rightarrow> int \<Rightarrow> int \<Rightarrow> int \<Rightarrow> int \<Rightarrow> int \<Rightarrow> bool" where
  "man_quiet_step board player r c nr nc \<longleftrightarrow>
     board ! sq r c = my_man_of player \<and>
     nr = r + forward_dir player \<and> (nc = c - 1 \<or> nc = c + 1) \<and>
     is_valid nr nc \<and> board ! sq nr nc = EMPTY"

definition king_quiet_slide :: "board \<Rightarrow> int \<Rightarrow> int \<Rightarrow> int \<Rightarrow> int \<Rightarrow> int \<Rightarrow> bool" where
  "king_quiet_slide board player r c nr nc \<longleftrightarrow>
     board ! sq r c = my_king_of player \<and>
     (\<exists>dr \<in> {- 1, 1}. \<exists>dc \<in> {- 1, 1}. \<exists>d \<ge> 1.
        nr = r + d * dr \<and> nc = c + d * dc \<and>
        (\<forall>j. 1 \<le> j \<and> j \<le> d \<longrightarrow>
           is_valid (r + j * dr) (c + j * dc) \<and> board ! sq (r + j * dr) (c + j * dc) = EMPTY))"

definition legal_quiet :: "board \<Rightarrow> int \<Rightarrow> Move \<Rightarrow> bool" where
  "legal_quiet board player m \<longleftrightarrow>
     (\<exists>r c nr nc. is_valid r c \<and> m = quiet_move r c nr nc \<and>
        (man_quiet_step board player r c nr nc \<or> king_quiet_slide board player r c nr nc))"

lemma man_king_distinct [simp]: "my_man_of p \<noteq> my_king_of p"
  by (simp add: my_man_of_def my_king_of_def piece_defs)

lemma in_slide_list:
  "k < 4 \<Longrightarrow>
   m \<in> set (slide_list board r c k dist) \<longleftrightarrow>
     (\<exists>d \<ge> dist. m = quiet_move r c (r + d * (drs ! k)) (c + d * (dcs ! k)) \<and>
        (\<forall>j. dist \<le> j \<and> j \<le> d \<longrightarrow>
           is_valid (r + j * (drs ! k)) (c + j * (dcs ! k)) \<and>
           board ! sq (r + j * (drs ! k)) (c + j * (dcs ! k)) = EMPTY))"
proof (induction board r c k dist rule: slide_list.induct)
  case (1 board r c k dist)
  let ?ok = "\<lambda>j. is_valid (r + j * (drs ! k)) (c + j * (dcs ! k)) \<and>
                 board ! sq (r + j * (drs ! k)) (c + j * (dcs ! k)) = EMPTY"
  let ?qm = "\<lambda>d. quiet_move r c (r + d * (drs ! k)) (c + d * (dcs ! k))"
  show ?case
  proof (cases "?ok dist")
    case False
    then have "slide_list board r c k dist = []"
      using "1.prems" by (subst slide_list.simps) (auto simp: Let_def)
    moreover have "\<not> (\<exists>d \<ge> dist. m = ?qm d \<and> (\<forall>j. dist \<le> j \<and> j \<le> d \<longrightarrow> ?ok j))"
      using False by auto
    ultimately show ?thesis by simp
  next
    case True
    then have u: "slide_list board r c k dist = ?qm dist # slide_list board r c k (dist + 1)"
      using "1.prems" by (subst slide_list.simps) (auto simp: Let_def)
    have ih: "m \<in> set (slide_list board r c k (dist + 1)) \<longleftrightarrow>
            (\<exists>d \<ge> dist + 1. m = ?qm d \<and> (\<forall>j. dist + 1 \<le> j \<and> j \<le> d \<longrightarrow> ?ok j))"
      using "1.IH" [OF _ refl refl] "1.prems" True by simp
    have split: "(\<forall>j. dist \<le> j \<and> j \<le> d \<longrightarrow> ?ok j) \<longleftrightarrow>
                 (\<forall>j. dist + 1 \<le> j \<and> j \<le> d \<longrightarrow> ?ok j)" if "dist \<le> d" for d
    proof
      assume "\<forall>j. dist \<le> j \<and> j \<le> d \<longrightarrow> ?ok j"
      then show "\<forall>j. dist + 1 \<le> j \<and> j \<le> d \<longrightarrow> ?ok j" by simp
    next
      assume a: "\<forall>j. dist + 1 \<le> j \<and> j \<le> d \<longrightarrow> ?ok j"
      show "\<forall>j. dist \<le> j \<and> j \<le> d \<longrightarrow> ?ok j"
      proof (intro allI impI)
        fix j assume "dist \<le> j \<and> j \<le> d"
        then have "j = dist \<or> (dist + 1 \<le> j \<and> j \<le> d)" by arith
        then show "?ok j" using True a by blast
      qed
    qed
    show ?thesis
    proof
      assume "m \<in> set (slide_list board r c k dist)"
      then have "m = ?qm dist \<or> m \<in> set (slide_list board r c k (dist + 1))"
        by (simp add: u)
      then show "\<exists>d \<ge> dist. m = ?qm d \<and> (\<forall>j. dist \<le> j \<and> j \<le> d \<longrightarrow> ?ok j)"
      proof
        assume "m = ?qm dist"
        then have "m = ?qm dist \<and> (\<forall>j. dist \<le> j \<and> j \<le> dist \<longrightarrow> ?ok j)"
          using True by (auto simp: order.antisym)
        then show ?thesis by blast
      next
        assume "m \<in> set (slide_list board r c k (dist + 1))"
        then obtain d where d: "dist + 1 \<le> d" "m = ?qm d"
            "\<forall>j. dist + 1 \<le> j \<and> j \<le> d \<longrightarrow> ?ok j"
          using ih by blast
        then have "dist \<le> d \<and> m = ?qm d \<and> (\<forall>j. dist \<le> j \<and> j \<le> d \<longrightarrow> ?ok j)"
          using split [of d] by simp
        then show ?thesis by blast
      qed
    next
      assume "\<exists>d \<ge> dist. m = ?qm d \<and> (\<forall>j. dist \<le> j \<and> j \<le> d \<longrightarrow> ?ok j)"
      then obtain d where d: "dist \<le> d" "m = ?qm d" "\<forall>j. dist \<le> j \<and> j \<le> d \<longrightarrow> ?ok j"
        by blast
      show "m \<in> set (slide_list board r c k dist)"
      proof (cases "d = dist")
        case True
        with d(2) show ?thesis by (simp add: u)
      next
        case False
        with d(1) have "dist + 1 \<le> d" by simp
        moreover have "\<forall>j. dist + 1 \<le> j \<and> j \<le> d \<longrightarrow> ?ok j"
          using d(3) by simp
        ultimately have "m \<in> set (slide_list board r c k (dist + 1))"
          using ih d(2) by blast
        then show ?thesis by (simp add: u)
      qed
    qed
  qed
qed


lemma upt_0_4: "[0..<4] = [0, 1, 2, 3]"
  by (simp add: upt_rec)

lemma in_king_list:
  "m \<in> set (king_list board r c) \<longleftrightarrow>
     (\<exists>dr \<in> {- 1, 1}. \<exists>dc \<in> {- 1, 1}. \<exists>d \<ge> 1.
        m = quiet_move r c (r + d * dr) (c + d * dc) \<and>
        (\<forall>j. 1 \<le> j \<and> j \<le> d \<longrightarrow>
           is_valid (r + j * dr) (c + j * dc) \<and> board ! sq (r + j * dr) (c + j * dc) = EMPTY))"
proof -
  have k: "m \<in> set (king_list board r c) \<longleftrightarrow>
        m \<in> set (slide_list board r c 0 1) \<or> m \<in> set (slide_list board r c 1 1) \<or>
        m \<in> set (slide_list board r c 2 1) \<or> m \<in> set (slide_list board r c 3 1)"
    by (simp add: king_list_def upt_0_4)
  have s0: "m \<in> set (slide_list board r c 0 1) \<longleftrightarrow>
      (\<exists>d \<ge> 1. m = quiet_move r c (r + d * (- 1)) (c + d * (- 1)) \<and>
        (\<forall>j. 1 \<le> j \<and> j \<le> d \<longrightarrow>
           is_valid (r + j * (- 1)) (c + j * (- 1)) \<and> board ! sq (r + j * (- 1)) (c + j * (- 1)) = EMPTY))"
    using in_slide_list [of 0 m board r c 1] by (simp add: drs_def dcs_def)
  have s1: "m \<in> set (slide_list board r c 1 1) \<longleftrightarrow>
      (\<exists>d \<ge> 1. m = quiet_move r c (r + d * (- 1)) (c + d * 1) \<and>
        (\<forall>j. 1 \<le> j \<and> j \<le> d \<longrightarrow>
           is_valid (r + j * (- 1)) (c + j * 1) \<and> board ! sq (r + j * (- 1)) (c + j * 1) = EMPTY))"
    using in_slide_list [of 1 m board r c 1] by (simp add: drs_def dcs_def)
  have s2: "m \<in> set (slide_list board r c 2 1) \<longleftrightarrow>
      (\<exists>d \<ge> 1. m = quiet_move r c (r + d * 1) (c + d * (- 1)) \<and>
        (\<forall>j. 1 \<le> j \<and> j \<le> d \<longrightarrow>
           is_valid (r + j * 1) (c + j * (- 1)) \<and> board ! sq (r + j * 1) (c + j * (- 1)) = EMPTY))"
    using in_slide_list [of 2 m board r c 1] by (simp add: drs_def dcs_def)
  have s3: "m \<in> set (slide_list board r c 3 1) \<longleftrightarrow>
      (\<exists>d \<ge> 1. m = quiet_move r c (r + d * 1) (c + d * 1) \<and>
        (\<forall>j. 1 \<le> j \<and> j \<le> d \<longrightarrow>
           is_valid (r + j * 1) (c + j * 1) \<and> board ! sq (r + j * 1) (c + j * 1) = EMPTY))"
    using in_slide_list [of 3 m board r c 1] by (simp add: drs_def dcs_def)
  show ?thesis
    unfolding k s0 s1 s2 s3 by auto
qed


lemma in_man_list:
  "m \<in> set (man_list board w r c) \<longleftrightarrow>
     (\<exists>nc. (nc = c - 1 \<or> nc = c + 1) \<and> is_valid (r + (if w then - 1 else 1)) nc \<and>
        board ! sq (r + (if w then - 1 else 1)) nc = EMPTY \<and>
        m = quiet_move r c (r + (if w then - 1 else 1)) nc)"
  by (auto simp: man_list_def Let_def)

lemma in_quiet_from:
  "m \<in> set (quiet_from board player r c) \<longleftrightarrow>
     (\<exists>nr nc. m = quiet_move r c nr nc \<and>
        (man_quiet_step board player r c nr nc \<or> king_quiet_slide board player r c nr nc))"
proof (cases "board ! sq r c = my_man_of player")
  case True
  then have "\<not> king_quiet_slide board player r c nr nc" for nr nc
    by (simp add: king_quiet_slide_def)
  with True show ?thesis
    by (auto simp: quiet_from_def in_man_list man_quiet_step_def forward_dir_def)
next
  case False
  then have nm: "\<not> man_quiet_step board player r c nr nc" for nr nc
    by (simp add: man_quiet_step_def)
  show ?thesis
  proof (cases "board ! sq r c = my_king_of player")
    case True
    with False nm show ?thesis
      by (simp add: quiet_from_def in_king_list king_quiet_slide_def) blast
  next
    case no_king: False
    with False nm show ?thesis
      by (simp add: quiet_from_def king_quiet_slide_def)
  qed
qed

lemma is_valid_nat: "is_valid r c \<longleftrightarrow> (\<exists>r' < 8. \<exists>c' < 8. r = int r' \<and> c = int c')"
proof
  assume "is_valid r c"
  then have "nat r < 8 \<and> nat c < 8 \<and> r = int (nat r) \<and> c = int (nat c)"
    unfolding is_valid_def by arith
  then show "\<exists>r' < 8. \<exists>c' < 8. r = int r' \<and> c = int c'" by blast
next
  assume "\<exists>r' < 8. \<exists>c' < 8. r = int r' \<and> c = int c'"
  then show "is_valid r c" by (auto simp: is_valid_def)
qed

lemma set_quiet_list: "set (quiet_list board player) = {m. legal_quiet board player m}"
proof -
  have "m \<in> set (quiet_list board player) \<longleftrightarrow> legal_quiet board player m" for m
  proof -
    have "m \<in> set (quiet_list board player) \<longleftrightarrow>
            (\<exists>r' < 8. \<exists>c' < 8. m \<in> set (quiet_from board player (int r') (int c')))"
      by (simp add: quiet_list_def Bex_def)
    also have "\<dots> \<longleftrightarrow> (\<exists>r c. is_valid r c \<and> m \<in> set (quiet_from board player r c))"
      unfolding is_valid_nat by blast
    also have "\<dots> \<longleftrightarrow> legal_quiet board player m"
      unfolding in_quiet_from legal_quiet_def by blast
    finally show ?thesis .
  qed
  then show ?thesis by blast
qed

subsection \<open>When the capture scan emits a chain\<close>

lemma push_back_nonempty [simp]: "push_back ms m \<noteq> []"
  by (auto simp: push_back_def)

lemma fold_nonempty:
  assumes "\<And>x ms. x \<in> set xs \<Longrightarrow> ms \<noteq> [] \<Longrightarrow> f x ms \<noteq> []" and "ms0 \<noteq> []"
  shows "fold f xs ms0 \<noteq> []"
  using assms by (induction xs arbitrary: ms0) auto

lemma find_captures_recursive_mono:
  "moves \<noteq> [] \<Longrightarrow> find_captures_recursive board r c piece cur moves \<noteq> []"
proof (induction board r c piece cur moves rule: find_captures_recursive.induct)
  case (1 board r c piece cur moves)
  show ?case
  proof (cases "12 \<le> count cur")
    case True
    then show ?thesis
      by (subst find_captures_recursive.simps) simp
  next
    case False
    let ?js = "all_jumps board r c piece"
    let ?f = "\<lambda>j ms. find_captures_recursive (jump_board board r c piece j)
                 (fst (snd (snd j))) (snd (snd (snd j))) piece
                 (add_step cur \<lparr>r1 = r, c1 = c, r2 = fst (snd (snd j)), c2 = snd (snd (snd j))\<rparr>) ms"
    have "fold ?f ?js moves \<noteq> []"
    proof (rule fold_nonempty)
      fix j :: "int \<times> int \<times> int \<times> int" and ms :: MoveList
      assume "j \<in> set ?js" "ms \<noteq> []"
      then show "?f j ms \<noteq> []"
        using "1.IH" [OF False refl] by blast
    qed (rule "1.prems")
    then show ?thesis
      using False
      by (subst find_captures_recursive.simps) (auto simp: Let_def)
  qed
qed

lemma find_captures_recursive_emits:
  "count cur > 0 \<Longrightarrow> find_captures_recursive board r c piece cur moves \<noteq> []"
proof (induction board r c piece cur moves rule: find_captures_recursive.induct)
  case (1 board r c piece cur moves)
  show ?case
  proof (cases "12 \<le> count cur")
    case True
    then show ?thesis
      by (subst find_captures_recursive.simps) simp
  next
    case False
    let ?js = "all_jumps board r c piece"
    let ?f = "\<lambda>j ms. find_captures_recursive (jump_board board r c piece j)
                 (fst (snd (snd j))) (snd (snd (snd j))) piece
                 (add_step cur \<lparr>r1 = r, c1 = c, r2 = fst (snd (snd j)), c2 = snd (snd (snd j))\<rparr>) ms"
    show ?thesis
    proof (cases ?js)
      case Nil
      with False "1.prems" show ?thesis
        by (subst find_captures_recursive.simps) (simp add: Let_def)
    next
      case (Cons j js')
      have first: "?f j moves \<noteq> []"
        by (rule "1.IH" [OF False refl]) (simp_all add: Cons add_step_def)
      have "fold ?f js' (?f j moves) \<noteq> []"
        by (rule fold_nonempty [OF find_captures_recursive_mono first])
      then have "fold ?f ?js moves \<noteq> []"
        by (simp add: Cons)
      then show ?thesis
        using False Cons
        by (subst find_captures_recursive.simps) (simp add: Let_def)
    qed
  qed
qed

lemma find_captures_recursive_start:
  "find_captures_recursive board r c piece empty_move moves \<noteq> [] \<longleftrightarrow>
     moves \<noteq> [] \<or> all_jumps board r c piece \<noteq> []"
proof (cases "all_jumps board r c piece")
  case Nil
  then have "find_captures_recursive board r c piece empty_move moves = moves"
    by (subst find_captures_recursive.simps) (simp add: empty_move_def Let_def)
  with Nil show ?thesis by simp
next
  case (Cons j js')
  let ?f = "\<lambda>j ms. find_captures_recursive (jump_board board r c piece j)
               (fst (snd (snd j))) (snd (snd (snd j))) piece
               (add_step empty_move \<lparr>r1 = r, c1 = c, r2 = fst (snd (snd j)), c2 = snd (snd (snd j))\<rparr>) ms"
  have first: "?f j moves \<noteq> []"
    by (rule find_captures_recursive_emits) (simp add: add_step_def)
  have "fold ?f js' (?f j moves) \<noteq> []"
    by (rule fold_nonempty [OF find_captures_recursive_mono first])
  then have "find_captures_recursive board r c piece empty_move moves \<noteq> []"
    using Cons
    by (subst find_captures_recursive.simps) (simp add: empty_move_def Let_def)
  with Cons show ?thesis by simp
qed

lemma fold_cond_nonempty:
  assumes "\<And>i ms. g i ms = [] \<longleftrightarrow> ms = [] \<and> \<not> A i"
  shows "fold (\<lambda>i ms. if cnd i then g i ms else ms) xs ms0 = [] \<longleftrightarrow>
           ms0 = [] \<and> \<not> (\<exists>i \<in> set xs. cnd i \<and> A i)"
  by (induction xs arbitrary: ms0) (auto simp: assms)

lemma capture_scan_nonempty:
  "capture_scan board player \<noteq> [] \<longleftrightarrow>
     (\<exists>i < 64. (board ! i = my_man_of player \<or> board ! i = my_king_of player) \<and>
        all_jumps board (int i div 8) (int i mod 8) (board ! i) \<noteq> [])"
proof -
  have g: "find_captures_recursive board (int i div 8) (int i mod 8) (board ! i) empty_move ms = []
            \<longleftrightarrow> ms = [] \<and> \<not> all_jumps board (int i div 8) (int i mod 8) (board ! i) \<noteq> []" for i ms
    using find_captures_recursive_start [of board "int i div 8" "int i mod 8" "board ! i" ms]
    by blast
  show ?thesis
    unfolding capture_scan_def
    using fold_cond_nonempty [where g = "\<lambda>i ms. find_captures_recursive board (int i div 8) (int i mod 8) (board ! i) empty_move ms"
        and A = "\<lambda>i. all_jumps board (int i div 8) (int i mod 8) (board ! i) \<noteq> []"
        and cnd = "\<lambda>i. board ! i = my_man_of player \<or> board ! i = my_king_of player"
        and xs = "[0..<64]" and ?ms0.0 = "[]", OF g]
    by (simp add: Bex_def)
qed

text \<open>
  The tests of the king branch on a square: an enemy piece ends the approach and is jumped;
  an own piece or a ghost blocks it.
\<close>

definition is_enemy :: "int \<Rightarrow> int \<Rightarrow> bool" where
  "is_enemy player p \<longleftrightarrow> p = enemy_man_of player \<or> p = enemy_king_of player"

definition is_blocker :: "int \<Rightarrow> int \<Rightarrow> bool" where
  "is_blocker player p \<longleftrightarrow> p = my_man_of player \<or> p = my_king_of player \<or> p = GHOST"

lemma enemy_not_blocker: "is_enemy player p \<Longrightarrow> \<not> is_blocker player p"
  by (auto simp: is_enemy_def is_blocker_def enemy_man_of_def enemy_king_of_def
        my_man_of_def my_king_of_def piece_defs split: if_splits)

lemma king_landings_nonempty:
  "i < 4 \<Longrightarrow>
   king_landings board nr nc i 1 \<noteq> [] \<longleftrightarrow>
     is_valid (nr + drs ! i) (nc + dcs ! i) \<and> board ! sq (nr + drs ! i) (nc + dcs ! i) = EMPTY"
  by (subst king_landings.simps) (simp add: Let_def)

lemma king_jumps_nonempty:
  "i < 4 \<Longrightarrow>
   king_jumps board r c piece i dist \<noteq> [] \<longleftrightarrow>
     (\<exists>d \<ge> dist.
        (\<forall>j. dist \<le> j \<and> j < d \<longrightarrow>
           is_valid (r + j * (drs ! i)) (c + j * (dcs ! i)) \<and>
           \<not> is_blocker piece (board ! sq (r + j * (drs ! i)) (c + j * (dcs ! i))) \<and>
           \<not> is_enemy piece (board ! sq (r + j * (drs ! i)) (c + j * (dcs ! i)))) \<and>
        is_valid (r + d * (drs ! i)) (c + d * (dcs ! i)) \<and>
        is_enemy piece (board ! sq (r + d * (drs ! i)) (c + d * (dcs ! i))) \<and>
        is_valid (r + (d + 1) * (drs ! i)) (c + (d + 1) * (dcs ! i)) \<and>
        board ! sq (r + (d + 1) * (drs ! i)) (c + (d + 1) * (dcs ! i)) = EMPTY)"
proof (induction board r c piece i dist rule: king_jumps.induct)
  case (1 board r c piece i dist)
  let ?v = "\<lambda>j. is_valid (r + j * (drs ! i)) (c + j * (dcs ! i))"
  let ?p = "\<lambda>j. board ! sq (r + j * (drs ! i)) (c + j * (dcs ! i))"
  let ?free = "\<lambda>j. ?v j \<and> \<not> is_blocker piece (?p j) \<and> \<not> is_enemy piece (?p j)"
  let ?hit = "\<lambda>d. ?v d \<and> is_enemy piece (?p d) \<and> ?v (d + 1) \<and> ?p (d + 1) = EMPTY"
  let ?R = "\<lambda>k. \<exists>d \<ge> k. (\<forall>j. k \<le> j \<and> j < d \<longrightarrow> ?free j) \<and> ?hit d"
  have i4: "\<not> 4 \<le> i" using "1.prems" by simp
  have land: "king_landings board (r + dist * (drs ! i)) (c + dist * (dcs ! i)) i 1 \<noteq> [] \<longleftrightarrow>
                ?v (dist + 1) \<and> ?p (dist + 1) = EMPTY"
    using king_landings_nonempty [OF "1.prems", of board "r + dist * (drs ! i)" "c + dist * (dcs ! i)"]
    by (simp add: algebra_simps)
  have only_here: "?R dist \<longleftrightarrow> ?hit dist" if "\<not> ?free dist"
  proof
    assume "?R dist"
    then obtain d where d: "dist \<le> d" "\<forall>j. dist \<le> j \<and> j < d \<longrightarrow> ?free j" "?hit d" by blast
    have "d = dist"
    proof (rule ccontr)
      assume "d \<noteq> dist"
      with d(1) have "dist \<le> dist \<and> dist < d" by simp
      with d(2) have "?free dist" by blast
      with that show False by simp
    qed
    with d(3) show "?hit dist" by simp
  next
    assume "?hit dist"
    moreover have "\<forall>j. dist \<le> j \<and> j < dist \<longrightarrow> ?free j" by auto
    ultimately have "dist \<le> dist \<and> (\<forall>j. dist \<le> j \<and> j < dist \<longrightarrow> ?free j) \<and> ?hit dist" by blast
    then show "?R dist" by blast
  qed
  have later: "?R dist \<longleftrightarrow> ?R (dist + 1)" if f: "?free dist"
  proof
    assume "?R dist"
    then obtain d where d: "dist \<le> d" "\<forall>j. dist \<le> j \<and> j < d \<longrightarrow> ?free j" "?hit d" by blast
    from f d(3) have "d \<noteq> dist" by auto
    with d(1) have "dist + 1 \<le> d" by simp
    moreover from d(2) have "\<forall>j. dist + 1 \<le> j \<and> j < d \<longrightarrow> ?free j" by simp
    ultimately show "?R (dist + 1)" using d(3) by blast
  next
    assume "?R (dist + 1)"
    then obtain d where d: "dist + 1 \<le> d" "\<forall>j. dist + 1 \<le> j \<and> j < d \<longrightarrow> ?free j" "?hit d"
      by blast
    have "\<forall>j. dist \<le> j \<and> j < d \<longrightarrow> ?free j"
    proof (intro allI impI)
      fix j assume "dist \<le> j \<and> j < d"
      then have "j = dist \<or> (dist + 1 \<le> j \<and> j < d)" by arith
      then show "?free j" using f d(2) by blast
    qed
    moreover from d(1) have "dist \<le> d" by simp
    ultimately show "?R dist" using d(3) by blast
  qed
  show ?case
  proof (cases "?v dist")
    case False
    then have "king_jumps board r c piece i dist = []"
      using i4 by (subst king_jumps.simps) (simp add: Let_def)
    moreover have "\<not> ?R dist"
      using only_here False by blast
    ultimately show ?thesis by blast
  next
    case valid: True
    show ?thesis
    proof (cases "is_blocker piece (?p dist)")
      case True
      then have "king_jumps board r c piece i dist = []"
        using i4 valid by (subst king_jumps.simps) (simp add: Let_def is_blocker_def)
      moreover have "\<not> ?R dist"
        using only_here True enemy_not_blocker by blast
      ultimately show ?thesis by blast
    next
      case nb: False
      show ?thesis
      proof (cases "is_enemy piece (?p dist)")
        case True
        then have "king_jumps board r c piece i dist =
                     map (\<lambda>(jr, jc). (r + dist * (drs ! i), c + dist * (dcs ! i), jr, jc))
                       (king_landings board (r + dist * (drs ! i)) (c + dist * (dcs ! i)) i 1)"
          using i4 valid nb
          by (subst king_jumps.simps) (simp add: Let_def is_blocker_def is_enemy_def)
        then have "king_jumps board r c piece i dist \<noteq> [] \<longleftrightarrow> ?hit dist"
          using land valid True by simp
        moreover have "?R dist \<longleftrightarrow> ?hit dist"
          using only_here True by blast
        ultimately show ?thesis by blast
      next
        case ne: False
        have "king_jumps board r c piece i dist = king_jumps board r c piece i (dist + 1)"
          using i4 valid nb ne
          by (subst king_jumps.simps) (simp add: Let_def is_blocker_def is_enemy_def)
        moreover have "king_jumps board r c piece i (dist + 1) \<noteq> [] \<longleftrightarrow> ?R (dist + 1)"
          using "1.IH" [OF i4 refl refl _ refl] valid nb ne "1.prems"
          by (simp add: is_blocker_def is_enemy_def)
        moreover have "?R dist \<longleftrightarrow> ?R (dist + 1)"
          using later valid nb ne by blast
        ultimately show ?thesis by simp
      qed
    qed
  qed
qed

subsection \<open>Available captures, in the words of the specification\<close>

text \<open>
  Following the specification: a board handed to the engine holds 64 piece codes and no
  ghost (\<open>plain_board\<close>). A man captures, forward or backward, an adjacent enemy with the
  empty square right behind it. A king captures along a diagonal: empty squares up to an
  enemy piece and an empty landing square right behind that piece.
\<close>

definition plain_board :: "board \<Rightarrow> bool" where
  "plain_board board \<longleftrightarrow>
     length board = 64 \<and>
     (\<forall>p \<in> set board. p = EMPTY \<or> p = BLACK_MAN \<or> p = WHITE_MAN \<or> p = BLACK_KING \<or> p = WHITE_KING)"

definition man_can_jump :: "board \<Rightarrow> int \<Rightarrow> int \<Rightarrow> int \<Rightarrow> bool" where
  "man_can_jump board player r c \<longleftrightarrow>
     (\<exists>dr \<in> {- 1, 1}. \<exists>dc \<in> {- 1, 1}.
        is_valid (r + 2 * dr) (c + 2 * dc) \<and>
        is_enemy player (board ! sq (r + dr) (c + dc)) \<and>
        board ! sq (r + 2 * dr) (c + 2 * dc) = EMPTY)"

definition king_can_jump :: "board \<Rightarrow> int \<Rightarrow> int \<Rightarrow> int \<Rightarrow> bool" where
  "king_can_jump board player r c \<longleftrightarrow>
     (\<exists>dr \<in> {- 1, 1}. \<exists>dc \<in> {- 1, 1}. \<exists>d \<ge> 1.
        (\<forall>j. 1 \<le> j \<and> j < d \<longrightarrow> board ! sq (r + j * dr) (c + j * dc) = EMPTY) \<and>
        is_enemy player (board ! sq (r + d * dr) (c + d * dc)) \<and>
        is_valid (r + (d + 1) * dr) (c + (d + 1) * dc) \<and>
        board ! sq (r + (d + 1) * dr) (c + (d + 1) * dc) = EMPTY)"

definition capture_available :: "board \<Rightarrow> int \<Rightarrow> bool" where
  "capture_available board player \<longleftrightarrow>
     (\<exists>r c. is_valid r c \<and>
        (board ! sq r c = my_man_of player \<and> man_can_jump board player r c \<or>
         board ! sq r c = my_king_of player \<and> king_can_jump board player r c))"

lemma dir_enum:
  "(\<exists>i < 4. P (drs ! i) (dcs ! i)) \<longleftrightarrow> (\<exists>dr \<in> {- 1, 1}. \<exists>dc \<in> {- 1, 1}. P dr dc)"
proof -
  have "(\<exists>i < 4. P (drs ! i) (dcs ! i)) \<longleftrightarrow>
          P (drs ! 0) (dcs ! 0) \<or> P (drs ! 1) (dcs ! 1) \<or> P (drs ! 2) (dcs ! 2) \<or> P (drs ! 3) (dcs ! 3)"
  proof
    assume "\<exists>i < 4. P (drs ! i) (dcs ! i)"
    then obtain i :: nat where i: "i < 4" "P (drs ! i) (dcs ! i)" by blast
    then have "i = 0 \<or> i = 1 \<or> i = 2 \<or> i = 3" by arith
    with i(2) show "P (drs ! 0) (dcs ! 0) \<or> P (drs ! 1) (dcs ! 1) \<or> P (drs ! 2) (dcs ! 2) \<or> P (drs ! 3) (dcs ! 3)"
      by blast
  next
    assume "P (drs ! 0) (dcs ! 0) \<or> P (drs ! 1) (dcs ! 1) \<or> P (drs ! 2) (dcs ! 2) \<or> P (drs ! 3) (dcs ! 3)"
    moreover have "(0::nat) < 4" "(1::nat) < 4" "(2::nat) < 4" "(3::nat) < 4" by simp_all
    ultimately show "\<exists>i < 4. P (drs ! i) (dcs ! i)" by blast
  qed
  then show ?thesis
    by (simp add: drs_def dcs_def)
qed

lemma all_jumps_nonempty:
  "all_jumps board r c piece \<noteq> [] \<longleftrightarrow> (\<exists>i < 4. jumps_in_dir board r c piece i \<noteq> [])"
  by (simp add: all_jumps_def Bex_def)

lemma man_jumps_nonempty:
  "man_jumps board r c piece i \<noteq> [] \<longleftrightarrow>
     is_valid (r + 2 * (drs ! i)) (c + 2 * (dcs ! i)) \<and>
     is_enemy piece (board ! sq (r + drs ! i) (c + dcs ! i)) \<and>
     board ! sq (r + 2 * (drs ! i)) (c + 2 * (dcs ! i)) = EMPTY"
  by (simp add: man_jumps_def Let_def is_enemy_def)

lemma side_of_own_piece:
  "piece = my_man_of player \<or> piece = my_king_of player \<Longrightarrow> is_white_of piece = is_white_of player"
  by (auto simp: my_man_of_def my_king_of_def is_white_of_def piece_defs split: if_splits)

lemma is_enemy_side: "is_white_of piece = is_white_of player \<Longrightarrow> is_enemy piece = is_enemy player"
  by (simp add: fun_eq_iff is_enemy_def enemy_man_of_def enemy_king_of_def)

lemma is_blocker_side: "is_white_of piece = is_white_of player \<Longrightarrow> is_blocker piece = is_blocker player"
  by (simp add: fun_eq_iff is_blocker_def my_man_of_def my_king_of_def)

lemma man_not_king_piece: "\<not> is_king_piece (my_man_of player)"
  by (simp add: is_king_piece_def my_man_of_def piece_defs)

lemma king_is_king_piece: "is_king_piece (my_king_of player)"
  by (simp add: is_king_piece_def my_king_of_def)

lemma man_all_jumps:
  "all_jumps board r c (my_man_of player) \<noteq> [] \<longleftrightarrow> man_can_jump board player r c"
proof -
  have e: "is_enemy (my_man_of player) = is_enemy player"
    by (rule is_enemy_side) (simp add: side_of_own_piece)
  show ?thesis
    unfolding all_jumps_nonempty jumps_in_dir_def man_can_jump_def
    by (simp only: man_not_king_piece if_True not_False_eq_True man_jumps_nonempty e
          dir_enum [where P = "\<lambda>dr dc. is_valid (r + 2 * dr) (c + 2 * dc) \<and>
             is_enemy player (board ! sq (r + dr) (c + dc)) \<and> board ! sq (r + 2 * dr) (c + 2 * dc) = EMPTY"])
qed


lemma is_valid_between:
  assumes "is_valid r c" "is_valid (r + n * dr) (c + n * dc)"
    and "dr = - 1 \<or> dr = 1" "dc = - 1 \<or> dc = 1" "0 \<le> j" "j \<le> n"
  shows "is_valid (r + j * dr) (c + j * dc)"
  using assms by (auto simp: is_valid_def)

lemma sq_less_64: "is_valid r c \<Longrightarrow> sq r c < 64"
  by (auto simp: is_valid_def sq_def)

lemma plain_square_free:
  assumes "plain_board board" "is_valid x y"
  shows "\<not> is_blocker player (board ! sq x y) \<and> \<not> is_enemy player (board ! sq x y)
           \<longleftrightarrow> board ! sq x y = EMPTY"
proof -
  have "board ! sq x y \<in> set board"
    using assms sq_less_64 [of x y] by (simp add: plain_board_def)
  then have "board ! sq x y = EMPTY \<or> board ! sq x y = BLACK_MAN \<or> board ! sq x y = WHITE_MAN \<or>
             board ! sq x y = BLACK_KING \<or> board ! sq x y = WHITE_KING"
    using assms(1) by (simp add: plain_board_def)
  then show ?thesis
    by (auto simp: is_blocker_def is_enemy_def my_man_of_def my_king_of_def
          enemy_man_of_def enemy_king_of_def piece_defs)
qed

lemma king_dir_equiv:
  assumes pb: "plain_board board" and v: "is_valid r c"
    and dr: "dr = - 1 \<or> dr = 1" and dc: "dc = - 1 \<or> dc = 1"
  shows "(\<exists>d \<ge> 1.
            (\<forall>j. 1 \<le> j \<and> j < d \<longrightarrow>
               is_valid (r + j * dr) (c + j * dc) \<and>
               \<not> is_blocker player (board ! sq (r + j * dr) (c + j * dc)) \<and>
               \<not> is_enemy player (board ! sq (r + j * dr) (c + j * dc))) \<and>
            is_valid (r + d * dr) (c + d * dc) \<and>
            is_enemy player (board ! sq (r + d * dr) (c + d * dc)) \<and>
            is_valid (r + (d + 1) * dr) (c + (d + 1) * dc) \<and>
            board ! sq (r + (d + 1) * dr) (c + (d + 1) * dc) = EMPTY)
         \<longleftrightarrow>
         (\<exists>d \<ge> 1.
            (\<forall>j. 1 \<le> j \<and> j < d \<longrightarrow> board ! sq (r + j * dr) (c + j * dc) = EMPTY) \<and>
            is_enemy player (board ! sq (r + d * dr) (c + d * dc)) \<and>
            is_valid (r + (d + 1) * dr) (c + (d + 1) * dc) \<and>
            board ! sq (r + (d + 1) * dr) (c + (d + 1) * dc) = EMPTY)"
proof -
  let ?V = "\<lambda>j. is_valid (r + j * dr) (c + j * dc)"
  let ?p = "\<lambda>j. board ! sq (r + j * dr) (c + j * dc)"
  have body: "((\<forall>j. 1 \<le> j \<and> j < d \<longrightarrow> ?V j \<and> \<not> is_blocker player (?p j) \<and> \<not> is_enemy player (?p j)) \<and> ?V d)
          \<longleftrightarrow> (\<forall>j. 1 \<le> j \<and> j < d \<longrightarrow> ?p j = EMPTY)"
    if d: "1 \<le> d" and land: "?V (d + 1)" for d
  proof -
    have vj: "?V j" if "1 \<le> j" "j \<le> d" for j
      using is_valid_between [OF v land dr dc, of j] that by simp
    have free: "\<not> is_blocker player (?p j) \<and> \<not> is_enemy player (?p j) \<longleftrightarrow> ?p j = EMPTY"
      if "1 \<le> j" "j \<le> d" for j
      using plain_square_free [OF pb vj [OF that]] .
    show ?thesis
    proof
      assume a: "(\<forall>j. 1 \<le> j \<and> j < d \<longrightarrow> ?V j \<and> \<not> is_blocker player (?p j) \<and> \<not> is_enemy player (?p j)) \<and> ?V d"
      show "\<forall>j. 1 \<le> j \<and> j < d \<longrightarrow> ?p j = EMPTY"
      proof (intro allI impI)
        fix j assume j: "1 \<le> j \<and> j < d"
        then have "\<not> is_blocker player (?p j) \<and> \<not> is_enemy player (?p j)" using a by blast
        moreover from j have "1 \<le> j" "j \<le> d" by simp_all
        ultimately show "?p j = EMPTY" using free by blast
      qed
    next
      assume b: "\<forall>j. 1 \<le> j \<and> j < d \<longrightarrow> ?p j = EMPTY"
      have "\<forall>j. 1 \<le> j \<and> j < d \<longrightarrow> ?V j \<and> \<not> is_blocker player (?p j) \<and> \<not> is_enemy player (?p j)"
      proof (intro allI impI)
        fix j assume j: "1 \<le> j \<and> j < d"
        then have jj: "1 \<le> j" "j \<le> d" by simp_all
        from j b have "?p j = EMPTY" by blast
        with free [OF jj] vj [OF jj]
        show "?V j \<and> \<not> is_blocker player (?p j) \<and> \<not> is_enemy player (?p j)" by blast
      qed
      moreover have "?V d" using vj [of d] d by simp
      ultimately show "(\<forall>j. 1 \<le> j \<and> j < d \<longrightarrow> ?V j \<and> \<not> is_blocker player (?p j) \<and> \<not> is_enemy player (?p j)) \<and> ?V d"
        by blast
    qed
  qed
  show ?thesis
  proof
    assume "\<exists>d \<ge> 1. (\<forall>j. 1 \<le> j \<and> j < d \<longrightarrow> ?V j \<and> \<not> is_blocker player (?p j) \<and> \<not> is_enemy player (?p j)) \<and>
              ?V d \<and> is_enemy player (?p d) \<and> ?V (d + 1) \<and> ?p (d + 1) = EMPTY"
    then obtain d where d: "1 \<le> d"
        "(\<forall>j. 1 \<le> j \<and> j < d \<longrightarrow> ?V j \<and> \<not> is_blocker player (?p j) \<and> \<not> is_enemy player (?p j)) \<and> ?V d"
        "is_enemy player (?p d)" "?V (d + 1)" "?p (d + 1) = EMPTY"
      by blast
    from body [OF d(1) d(4)] d(2) have "\<forall>j. 1 \<le> j \<and> j < d \<longrightarrow> ?p j = EMPTY" by blast
    with d show "\<exists>d \<ge> 1. (\<forall>j. 1 \<le> j \<and> j < d \<longrightarrow> ?p j = EMPTY) \<and> is_enemy player (?p d) \<and>
                   ?V (d + 1) \<and> ?p (d + 1) = EMPTY"
      by blast
  next
    assume "\<exists>d \<ge> 1. (\<forall>j. 1 \<le> j \<and> j < d \<longrightarrow> ?p j = EMPTY) \<and> is_enemy player (?p d) \<and>
              ?V (d + 1) \<and> ?p (d + 1) = EMPTY"
    then obtain d where d: "1 \<le> d" "\<forall>j. 1 \<le> j \<and> j < d \<longrightarrow> ?p j = EMPTY"
        "is_enemy player (?p d)" "?V (d + 1)" "?p (d + 1) = EMPTY"
      by blast
    from body [OF d(1) d(4)] d(2)
    have "(\<forall>j. 1 \<le> j \<and> j < d \<longrightarrow> ?V j \<and> \<not> is_blocker player (?p j) \<and> \<not> is_enemy player (?p j)) \<and> ?V d"
      by blast
    with d show "\<exists>d \<ge> 1. (\<forall>j. 1 \<le> j \<and> j < d \<longrightarrow> ?V j \<and> \<not> is_blocker player (?p j) \<and> \<not> is_enemy player (?p j)) \<and>
              ?V d \<and> is_enemy player (?p d) \<and> ?V (d + 1) \<and> ?p (d + 1) = EMPTY"
      by blast
  qed
qed

lemma king_all_jumps:
  assumes pb: "plain_board board" and v: "is_valid r c"
  shows "all_jumps board r c (my_king_of player) \<noteq> [] \<longleftrightarrow> king_can_jump board player r c"
proof -
  have w: "is_white_of (my_king_of player) = is_white_of player"
    by (simp add: side_of_own_piece)
  let ?A = "\<lambda>dr dc. \<exists>d \<ge> 1.
            (\<forall>j. 1 \<le> j \<and> j < d \<longrightarrow>
               is_valid (r + j * dr) (c + j * dc) \<and>
               \<not> is_blocker player (board ! sq (r + j * dr) (c + j * dc)) \<and>
               \<not> is_enemy player (board ! sq (r + j * dr) (c + j * dc))) \<and>
            is_valid (r + d * dr) (c + d * dc) \<and>
            is_enemy player (board ! sq (r + d * dr) (c + d * dc)) \<and>
            is_valid (r + (d + 1) * dr) (c + (d + 1) * dc) \<and>
            board ! sq (r + (d + 1) * dr) (c + (d + 1) * dc) = EMPTY"
  let ?B = "\<lambda>dr dc. \<exists>d \<ge> 1.
            (\<forall>j. 1 \<le> j \<and> j < d \<longrightarrow> board ! sq (r + j * dr) (c + j * dc) = EMPTY) \<and>
            is_enemy player (board ! sq (r + d * dr) (c + d * dc)) \<and>
            is_valid (r + (d + 1) * dr) (c + (d + 1) * dc) \<and>
            board ! sq (r + (d + 1) * dr) (c + (d + 1) * dc) = EMPTY"
  have "all_jumps board r c (my_king_of player) \<noteq> [] \<longleftrightarrow>
          (\<exists>i < 4. king_jumps board r c (my_king_of player) i 1 \<noteq> [])"
    by (simp add: all_jumps_nonempty jumps_in_dir_def king_is_king_piece)
  also have "\<dots> \<longleftrightarrow> (\<exists>i < 4. ?A (drs ! i) (dcs ! i))"
  proof -
    have kj: "king_jumps board r c (my_king_of player) i 1 \<noteq> [] \<longleftrightarrow> ?A (drs ! i) (dcs ! i)"
      if "i < 4" for i
      using king_jumps_nonempty [OF that, of board r c "my_king_of player" 1]
      by (simp add: is_enemy_side [OF w] is_blocker_side [OF w])
    show ?thesis
      by (simp cong: conj_cong add: kj)
  qed
  also have "\<dots> \<longleftrightarrow> (\<exists>dr \<in> {- 1, 1}. \<exists>dc \<in> {- 1, 1}. ?A dr dc)"
    by (rule dir_enum)
  also have "\<dots> \<longleftrightarrow> (\<exists>dr \<in> {- 1, 1}. \<exists>dc \<in> {- 1, 1}. ?B dr dc)"
    using king_dir_equiv [OF pb v, of _ _ player] by (intro bex_cong refl) auto
  finally show ?thesis
    by (simp only: king_can_jump_def)
qed


lemma square_index:
  "(\<exists>i < 64. P i (int i div 8) (int i mod 8)) \<longleftrightarrow> (\<exists>r c. is_valid r c \<and> P (sq r c) r c)"
proof
  assume "\<exists>i < 64. P i (int i div 8) (int i mod 8)"
  then obtain i :: nat where i: "i < 64" "P i (int i div 8) (int i mod 8)" by blast
  have "is_valid (int i div 8) (int i mod 8)"
    using i(1) unfolding is_valid_def by presburger
  moreover have "sq (int i div 8) (int i mod 8) = i"
    by (simp add: sq_def)
  ultimately show "\<exists>r c. is_valid r c \<and> P (sq r c) r c"
    using i(2) by metis
next
  assume "\<exists>r c. is_valid r c \<and> P (sq r c) r c"
  then obtain r c where rc: "is_valid r c" "P (sq r c) r c" by blast
  then have "sq r c < 64" "int (sq r c) div 8 = r" "int (sq r c) mod 8 = c"
    by (auto simp: is_valid_def sq_def)
  with rc(2) show "\<exists>i < 64. P i (int i div 8) (int i mod 8)" by metis
qed

lemma capture_scan_iff_available:
  assumes "plain_board board"
  shows "capture_scan board player \<noteq> [] \<longleftrightarrow> capture_available board player"
proof -
  have "capture_scan board player \<noteq> [] \<longleftrightarrow>
          (\<exists>r c. is_valid r c \<and>
             (board ! sq r c = my_man_of player \<or> board ! sq r c = my_king_of player) \<and>
             all_jumps board r c (board ! sq r c) \<noteq> [])"
    unfolding capture_scan_nonempty
    by (rule square_index [where P = "\<lambda>i r c. (board ! i = my_man_of player \<or> board ! i = my_king_of player) \<and>
             all_jumps board r c (board ! i) \<noteq> []"])
  also have "\<dots> \<longleftrightarrow>
          (\<exists>r c. is_valid r c \<and>
             (board ! sq r c = my_man_of player \<and> all_jumps board r c (my_man_of player) \<noteq> [] \<or>
              board ! sq r c = my_king_of player \<and> all_jumps board r c (my_king_of player) \<noteq> []))"
    by metis
  also have "\<dots> \<longleftrightarrow> capture_available board player"
    unfolding capture_available_def man_all_jumps
    using king_all_jumps [OF assms] by metis
  finally show ?thesis .
qed

text \<open>
  C1 (as amended): \<open>generate_moves\<close> enforces the forced maximum capture on the chains
  that the enumeration stored in the list of 128. If it stored any chain, the result is
  exactly the stored chains whose step count is the maximum over the stored chains, in
  their order, and no quiet move. If it stored none, the result is the first 128 quiet
  moves of the scan, and the scan lists exactly the legal quiet moves (men one diagonal
  step forward to an empty square; kings every empty square reachable along a diagonal).
  On a board of plain piece codes a chain is stored exactly when some piece of the side
  has a capture available.
\<close>

theorem generate_moves_forced_capture:
  "(capture_scan board player \<noteq> [] \<longrightarrow>
      generate_moves board player =
        filter (\<lambda>m. count m = Max (count ` set (capture_scan board player)))
          (capture_scan board player)) \<and>
   (capture_scan board player = [] \<longrightarrow>
      generate_moves board player = take 128 (quiet_list board player)) \<and>
   set (quiet_list board player) = {m. legal_quiet board player m} \<and>
   (plain_board board \<longrightarrow>
      (capture_scan board player \<noteq> [] \<longleftrightarrow> capture_available board player))"
proof -
  have a: "capture_scan board player \<noteq> [] \<longrightarrow>
      generate_moves board player =
        filter (\<lambda>m. count m = Max (count ` set (capture_scan board player)))
          (capture_scan board player)"
    by (simp add: generate_moves_def Let_def keep_max_captures_filter max_capture_count_eq)
  have b: "capture_scan board player = [] \<longrightarrow>
      generate_moves board player = take 128 (quiet_list board player)"
    by (simp add: generate_moves_def quiet_scan_take)
  from a b set_quiet_list capture_scan_iff_available show ?thesis
    by blast
qed

theorem generate_moves_forced_capture_witness:
  "capture_scan ring_board WHITE_MAN \<noteq> [] \<and>
   generate_moves ring_board WHITE_MAN =
     filter (\<lambda>m. count m = Max (count ` set (capture_scan ring_board WHITE_MAN)))
       (capture_scan ring_board WHITE_MAN) \<and>
   plain_board ring_board \<and> capture_available ring_board WHITE_MAN \<and>
   capture_scan (place_pieces [(5, 0, WHITE_MAN)]) WHITE_MAN = [] \<and>
   generate_moves (place_pieces [(5, 0, WHITE_MAN)]) WHITE_MAN =
     take 128 (quiet_list (place_pieces [(5, 0, WHITE_MAN)]) WHITE_MAN) \<and>
   legal_quiet (place_pieces [(5, 0, WHITE_MAN)]) WHITE_MAN (quiet_move 5 0 4 1)"
proof -
  have c: "capture_scan ring_board WHITE_MAN \<noteq> []"
    by code_simp
  have p: "plain_board ring_board"
    by code_simp
  have n: "capture_scan (place_pieces [(5, 0, WHITE_MAN)]) WHITE_MAN = []"
    by code_simp
  have q: "quiet_move 5 0 4 1 \<in> set (quiet_list (place_pieces [(5, 0, WHITE_MAN)]) WHITE_MAN)"
    by code_simp
  show ?thesis
    using c p n q generate_moves_forced_capture [of ring_board WHITE_MAN]
      generate_moves_forced_capture [of "place_pieces [(5, 0, WHITE_MAN)]" WHITE_MAN]
    by blast
qed

text \<open>
  C1 as first stated (all legal quiet moves are returned when no capture exists)
  fails on the board with 28 white kings: no capture exists, the king on \<open>(7, 7)\<close> may
  slide to \<open>(6, 6)\<close>, and the returned list, full at 128 moves, does not contain that move.
\<close>

theorem generate_moves_drops_quiet_moves:
  "plain_board crowded_board \<and>
   \<not> capture_available crowded_board WHITE_MAN \<and>
   capture_scan crowded_board WHITE_MAN = [] \<and>
   legal_quiet crowded_board WHITE_MAN (quiet_move 7 7 6 6) \<and>
   quiet_move 7 7 6 6 \<notin> set (generate_moves crowded_board WHITE_MAN)"
proof -
  have p: "plain_board crowded_board"
    by code_simp
  have n: "capture_scan crowded_board WHITE_MAN = []"
    by code_simp
  have a: "\<not> capture_available crowded_board WHITE_MAN"
    using capture_scan_iff_available [OF p, of WHITE_MAN] n by simp
  have q: "quiet_move 7 7 6 6 \<in> set (quiet_list crowded_board WHITE_MAN)"
    by code_simp
  then have l: "legal_quiet crowded_board WHITE_MAN (quiet_move 7 7 6 6)"
    using set_quiet_list [of crowded_board WHITE_MAN] by blast
  have d: "quiet_move 7 7 6 6 \<notin> set (generate_moves crowded_board WHITE_MAN)"
    by code_simp
  from p a n l d show ?thesis by blast
qed

section \<open>Move ordering and the history table\<close>

text \<open>
  C8 (as amended): \<open>score_move_ordering\<close> returns \<open>history_table[0][from][to]\<close>, and
  has no parameter for the side, for every move that passes the four earlier tests of the
  source as they are written: it is not equal to the TT best move, the rows of its first
  source and its last destination differ by at most 2, its last destination is on neither
  row 0 nor row 7, and it is equal to neither killer of the ply. The update at a beta
  cutoff adds \<open>depth * depth\<close> to the slot of the actual side (0 for white, 1 for
  black), so for black it leaves \<open>history_table[0]\<close>, the part the ordering reads, as
  it was.
\<close>

theorem history_side_mismatch:
  "(\<not> move_eq m tt_best \<longrightarrow>
    \<not> (count m > 0 \<and> \<bar>r1 (steps m ! 0) - r2 (steps m ! (count m - 1))\<bar> > 2) \<longrightarrow>
    r2 (steps m ! (count m - 1)) \<noteq> 0 \<longrightarrow> r2 (steps m ! (count m - 1)) \<noteq> 7 \<longrightarrow>
    \<not> move_eq m (killer_moves st (nat ply) 0) \<longrightarrow> \<not> move_eq m (killer_moves st (nat ply) 1) \<longrightarrow>
      score_move_ordering st m tt_best ply =
        history_table st 0 (nat (r1 (steps m ! 0) * 8 + c1 (steps m ! 0)))
                           (nat (r2 (steps m ! (count m - 1)) * 8 + c2 (steps m ! (count m - 1)))))
   \<and> history_table (cutoff_update st player ply d km)
        (if player = WHITE_MAN \<or> player = WHITE_KING then 0 else 1)
        (nat (r1 (steps km ! 0) * 8 + c1 (steps km ! 0)))
        (nat (r2 (steps km ! 0) * 8 + c2 (steps km ! 0)))
      = history_table st (if player = WHITE_MAN \<or> player = WHITE_KING then 0 else 1)
          (nat (r1 (steps km ! 0) * 8 + c1 (steps km ! 0)))
          (nat (r2 (steps km ! 0) * 8 + c2 (steps km ! 0))) + d * d
   \<and> (\<not> (player = WHITE_MAN \<or> player = WHITE_KING) \<longrightarrow>
        history_table (cutoff_update st player ply d km) 0 = history_table st 0)"
  by (simp add: score_move_ordering_def cutoff_update_def Let_def)

theorem history_side_mismatch_witness:
  "score_move_ordering (initial_state\<lparr>history_table := (\<lambda>s f t. if s = 0 then 5 else 9)\<rparr>)
       (quiet_move 2 1 3 2) zero_move 3 = 5 \<and>
   history_table (cutoff_update (initial_state\<lparr>history_table := (\<lambda>s f t. if s = 0 then 5 else 9)\<rparr>)
       BLACK_MAN 3 4 (quiet_move 2 1 3 2)) 1 17 26 = 25 \<and>
   history_table (cutoff_update (initial_state\<lparr>history_table := (\<lambda>s f t. if s = 0 then 5 else 9)\<rparr>)
       BLACK_MAN 3 4 (quiet_move 2 1 3 2)) 0
     = (\<lambda>f t. 5)"
  using history_side_mismatch
    [where m = "quiet_move 2 1 3 2" and tt_best = zero_move and ply = 3 and player = BLACK_MAN
       and d = 4 and km = "quiet_move 2 1 3 2"
       and st = "initial_state\<lparr>history_table := (\<lambda>s f t. if s = 0 then 5 else 9)\<rparr>"]
  by (simp add: initial_state_def quiet_move_def zero_move_def move_eq_def piece_defs)

text \<open>
  C8 as first stated (every move that is not the TT best move, not a long capture, not a
  promotion and not a killer gets the history value) fails on quiet king moves, because
  the tests of the source look at rows only. A lone white king on \<open>(5, 0)\<close> has no
  capture; its quiet slide to \<open>(2, 3)\<close> is generated, is no promotion by
  \<open>is_promotion_move\<close>, and is scored as a long capture, 1001000. A lone white king on
  \<open>(1, 2)\<close> may step to \<open>(0, 3)\<close>; that move is no capture and no promotion either
  and is scored as a promotion, 950000. In both cases the TT best move and the killers
  are the zero move and the history value is 0.
\<close>

theorem ordering_scores_quiet_king_moves:
  "capture_scan (place_pieces [(5, 0, WHITE_KING)]) WHITE_MAN = [] \<and>
   legal_quiet (place_pieces [(5, 0, WHITE_KING)]) WHITE_MAN (quiet_move 5 0 2 3) \<and>
   quiet_move 5 0 2 3 \<in> set (generate_moves (place_pieces [(5, 0, WHITE_KING)]) WHITE_MAN) \<and>
   \<not> is_promotion_move (quiet_move 5 0 2 3) (place_pieces [(5, 0, WHITE_KING)] ! sq 5 0) \<and>
   \<not> move_eq (quiet_move 5 0 2 3) zero_move \<and>
   killer_moves initial_state (nat 0) 0 = zero_move \<and>
   killer_moves initial_state (nat 0) 1 = zero_move \<and>
   history_table initial_state 0 (nat (5 * 8 + 0)) (nat (2 * 8 + 3)) = 0 \<and>
   score_move_ordering initial_state (quiet_move 5 0 2 3) zero_move 0 = 1001000 \<and>
   capture_scan (place_pieces [(1, 2, WHITE_KING)]) WHITE_MAN = [] \<and>
   legal_quiet (place_pieces [(1, 2, WHITE_KING)]) WHITE_MAN (quiet_move 1 2 0 3) \<and>
   quiet_move 1 2 0 3 \<in> set (generate_moves (place_pieces [(1, 2, WHITE_KING)]) WHITE_MAN) \<and>
   \<not> is_promotion_move (quiet_move 1 2 0 3) (place_pieces [(1, 2, WHITE_KING)] ! sq 1 2) \<and>
   \<not> move_eq (quiet_move 1 2 0 3) zero_move \<and>
   history_table initial_state 0 (nat (1 * 8 + 2)) (nat (0 * 8 + 3)) = 0 \<and>
   score_move_ordering initial_state (quiet_move 1 2 0 3) zero_move 0 = 950000"
proof -
  have a1: "capture_scan (place_pieces [(5, 0, WHITE_KING)]) WHITE_MAN = []"
    by code_simp
  have a2: "quiet_move 5 0 2 3 \<in> set (quiet_list (place_pieces [(5, 0, WHITE_KING)]) WHITE_MAN)"
    by code_simp
  have a3: "legal_quiet (place_pieces [(5, 0, WHITE_KING)]) WHITE_MAN (quiet_move 5 0 2 3)"
    using a2 set_quiet_list [of "place_pieces [(5, 0, WHITE_KING)]" WHITE_MAN] by blast
  have a4: "quiet_move 5 0 2 3 \<in> set (generate_moves (place_pieces [(5, 0, WHITE_KING)]) WHITE_MAN)"
    by code_simp
  have a5: "\<not> is_promotion_move (quiet_move 5 0 2 3) (place_pieces [(5, 0, WHITE_KING)] ! sq 5 0)"
    by code_simp
  have a6: "\<not> move_eq (quiet_move 5 0 2 3) zero_move"
    by (simp add: move_eq_def quiet_move_def zero_move_def)
  have k: "killer_moves initial_state (nat 0) 0 = zero_move"
          "killer_moves initial_state (nat 0) 1 = zero_move"
    by (simp_all add: initial_state_def)
  have h: "history_table initial_state 0 (nat (5 * 8 + 0)) (nat (2 * 8 + 3)) = 0"
          "history_table initial_state 0 (nat (1 * 8 + 2)) (nat (0 * 8 + 3)) = 0"
    by (simp_all add: initial_state_def)
  have a7: "score_move_ordering initial_state (quiet_move 5 0 2 3) zero_move 0 = 1001000"
    by (simp add: score_move_ordering_def move_eq_def quiet_move_def zero_move_def)
  have b1: "capture_scan (place_pieces [(1, 2, WHITE_KING)]) WHITE_MAN = []"
    by code_simp
  have b2: "quiet_move 1 2 0 3 \<in> set (quiet_list (place_pieces [(1, 2, WHITE_KING)]) WHITE_MAN)"
    by code_simp
  have b3: "legal_quiet (place_pieces [(1, 2, WHITE_KING)]) WHITE_MAN (quiet_move 1 2 0 3)"
    using b2 set_quiet_list [of "place_pieces [(1, 2, WHITE_KING)]" WHITE_MAN] by blast
  have b4: "quiet_move 1 2 0 3 \<in> set (generate_moves (place_pieces [(1, 2, WHITE_KING)]) WHITE_MAN)"
    by code_simp
  have b5: "\<not> is_promotion_move (quiet_move 1 2 0 3) (place_pieces [(1, 2, WHITE_KING)] ! sq 1 2)"
    by code_simp
  have b6: "\<not> move_eq (quiet_move 1 2 0 3) zero_move"
    by (simp add: move_eq_def quiet_move_def zero_move_def)
  have b7: "score_move_ordering initial_state (quiet_move 1 2 0 3) zero_move 0 = 950000"
    by (simp add: score_move_ordering_def move_eq_def quiet_move_def zero_move_def)
  from a1 a3 a4 a5 a6 k h a7 b1 b3 b4 b5 b6 b7 show ?thesis
    by blast
qed

end
